theory Spec2Isabelle
  imports Complex_Main "HOL-Library.Monad_Syntax"
begin

section \<open>Python primitives used by the three counters\<close>

text \<open>
  Python integers are unbounded, so they are \<^typ>\<open>int\<close>. A call that may raise returns an
  \<^typ>\<open>'a option\<close>: \<open>None\<close> stands for a raised exception (\<open>IndexError\<close> from list
  indexing, \<open>ValueError\<close> from \<open>math.comb\<close>, \<open>ZeroDivisionError\<close> from \<open>//\<close> and \<open>%\<close>),
  which none of the functions below catches.
\<close>

text \<open>\<open>range(start, stop)\<close>.\<close>

definition range_up :: "int \<Rightarrow> int \<Rightarrow> int list" where
  "range_up start stop = [start..stop - 1]"

text \<open>\<open>range(start, stop, -1)\<close>.\<close>

definition range_down :: "int \<Rightarrow> int \<Rightarrow> int list" where
  "range_down start stop = rev [stop + 1..start]"

text \<open>
  The position that a Python index \<open>i\<close> denotes in a list: \<open>i\<close> itself from the front,
  \<open>len + i\<close> for a negative \<open>i\<close>; outside \<open>-len \<le> i < len\<close> indexing raises.
\<close>

definition list_index :: "'a list \<Rightarrow> int \<Rightarrow> nat option" where
  "list_index xs i =
     (if 0 \<le> i \<and> i < int (length xs) then Some (nat i)
      else if i < 0 \<and> - int (length xs) \<le> i then Some (nat (int (length xs) + i))
      else None)"

text \<open>\<open>xs[i]\<close>.\<close>

definition getitem :: "'a list \<Rightarrow> int \<Rightarrow> 'a option" where
  "getitem xs i = do { j \<leftarrow> list_index xs i; Some (xs ! j) }"

text \<open>\<open>xs[i] = v\<close>, returning the updated list.\<close>

definition setitem :: "'a list \<Rightarrow> int \<Rightarrow> 'a \<Rightarrow> 'a list option" where
  "setitem xs i v = do { j \<leftarrow> list_index xs i; Some (xs[j := v]) }"

text \<open>\<open>[v] * k\<close>: the empty list when \<open>k\<close> is not positive.\<close>

definition list_times :: "'a \<Rightarrow> int \<Rightarrow> 'a list" where
  "list_times v k = replicate (nat k) v"

text \<open>\<open>for x in xs: body\<close> over a state; an exception in the body leaves the loop.\<close>

fun for_loop :: "'a list \<Rightarrow> ('a \<Rightarrow> 's \<Rightarrow> 's option) \<Rightarrow> 's \<Rightarrow> 's option" where
  "for_loop [] body s = Some s"
| "for_loop (x # xs) body s = do { s' \<leftarrow> body x s; for_loop xs body s' }"

text \<open>\<open>desc or default\<close> for an optional string: \<open>None\<close> and the empty string are falsy.\<close>

definition str_or :: "string option \<Rightarrow> string \<Rightarrow> string" where
  "str_or desc dflt = (case desc of None \<Rightarrow> dflt | Some d \<Rightarrow> if d = [] then dflt else d)"

text \<open>
  Modelled from the spec: \<open>tqdm\<close> is the third-party progress bar (the spec's
  progress-reporting collaborator, "a pure observer attached to the iteration"). Wrapped around
  an iterable it yields the items of that iterable, in order; the label and the display slot
  only reach the rendering, which is outside the model.
\<close>

definition tqdm :: "int list \<Rightarrow> string \<Rightarrow> int option \<Rightarrow> int list" where
  "tqdm iterable desc position = iterable"

section \<open>dp.py\<close>

text \<open>
  The innermost statement
  \<open>count_table[numbers_selected][current_sum] += count_table[numbers_selected - 1][current_sum - candidate]\<close>.
\<close>

definition dp_update :: "int \<Rightarrow> int \<Rightarrow> int \<Rightarrow> int list list \<Rightarrow> int list list option" where
  "dp_update candidate numbers_selected current_sum count_table = do {
     row \<leftarrow> getitem count_table numbers_selected;
     old \<leftarrow> getitem row current_sum;
     prev \<leftarrow> getitem count_table (numbers_selected - 1);
     add \<leftarrow> getitem prev (current_sum - candidate);
     row' \<leftarrow> setitem row current_sum (old + add);
     setitem count_table numbers_selected row'
   }"

definition dp_candidate :: "int \<Rightarrow> int \<Rightarrow> int list list \<Rightarrow> int list list option" where
  "dp_candidate target_sum candidate =
     for_loop (range_down 4 0) (\<lambda>numbers_selected.
       for_loop (range_down target_sum (candidate - 1)) (\<lambda>current_sum.
         dp_update candidate numbers_selected current_sum))"

definition count_quadruples ::
  "int \<Rightarrow> int \<Rightarrow> bool \<Rightarrow> int option \<Rightarrow> string option \<Rightarrow> int option" where
  "count_quadruples target_sum max_value show_progress progress_position progress_desc =
     (if target_sum < 10 \<or> target_sum > 4 * max_value - 6 then Some 0
      else do {
        let count_table = replicate 5 (list_times (0::int) (target_sum + 1));
        row0 \<leftarrow> getitem count_table 0;
        row0' \<leftarrow> setitem row0 0 1;
        count_table \<leftarrow> setitem count_table 0 row0';
        let iterator =
          (if show_progress
           then tqdm (range_up 1 (max_value + 1))
                  (str_or progress_desc ''Processing numbers'') progress_position
           else range_up 1 (max_value + 1));
        count_table \<leftarrow> for_loop iterator (dp_candidate target_sum) count_table;
        row4 \<leftarrow> getitem count_table 4;
        getitem row4 target_sum
      })"

section \<open>pair\_sum.py\<close>

text \<open>\<open>pair_counts[third + fourth] += 1\<close>.\<close>

definition register_pair :: "int \<Rightarrow> int \<Rightarrow> int list \<Rightarrow> int list option" where
  "register_pair third fourth pair_counts = do {
     old \<leftarrow> getitem pair_counts (third + fourth);
     setitem pair_counts (third + fourth) (old + 1)
   }"

text \<open>The body of \<open>for first in range(1, second)\<close>.\<close>

definition query_pair :: "int \<Rightarrow> int \<Rightarrow> int list \<Rightarrow> int \<Rightarrow> int \<Rightarrow> int option" where
  "query_pair upper_bound sum_without_first pair_counts first total' =
     (let target = sum_without_first - first
      in if 0 \<le> target \<and> target \<le> 2 * upper_bound
         then do { c \<leftarrow> getitem pair_counts target; Some (total' + c) }
         else Some total')"

text \<open>The body of \<open>for second in indices\<close>, on the state \<open>(pair_counts, total)\<close>.\<close>

definition sweep_second :: "int \<Rightarrow> int \<Rightarrow> int \<Rightarrow> int list \<times> int \<Rightarrow> (int list \<times> int) option" where
  "sweep_second target_sum upper_bound second st = do {
     let (pair_counts, total') = st;
     let third = second + 1;
     pair_counts \<leftarrow> for_loop (range_up (third + 1) (upper_bound + 1)) (register_pair third) pair_counts;
     let sum_without_first = target_sum - second;
     total' \<leftarrow> for_loop (range_up 1 second) (query_pair upper_bound sum_without_first pair_counts) total';
     Some (pair_counts, total')
   }"

definition count_quadruples_pair_sum ::
  "int \<Rightarrow> int \<Rightarrow> bool \<Rightarrow> int option \<Rightarrow> string option \<Rightarrow> int option" where
  "count_quadruples_pair_sum target_sum upper_bound show_progress progress_position progress_desc =
     (if target_sum < 10 \<or> target_sum > 4 * upper_bound - 6 then Some 0
      else do {
        let pair_counts = list_times (0::int) (2 * upper_bound + 1);
        let total' = 0;
        let base_range = range_down (upper_bound - 2) 1;
        let indices =
          (if show_progress
           then tqdm base_range (str_or progress_desc ''Sweeping b'') progress_position
           else base_range);
        (pair_counts, total') \<leftarrow>
          for_loop indices (sweep_second target_sum upper_bound) (pair_counts, total');
        Some total'
      })"

section \<open>main.py\<close>

text \<open>\<open>math.comb(n, k)\<close>: raises on a negative argument.\<close>

definition comb :: "int \<Rightarrow> int \<Rightarrow> int option" where
  "comb n k = (if n < 0 \<or> k < 0 then None else Some (int (nat n choose nat k)))"

text \<open>
  \<open>a // b\<close> and \<open>a % b\<close>: Python rounds the quotient down and gives the remainder the sign
  of the divisor, as \<open>div\<close> and \<open>mod\<close> on \<^typ>\<open>int\<close> do; a zero divisor raises.
\<close>

definition floordiv :: "int \<Rightarrow> int \<Rightarrow> int option" where
  "floordiv a b = (if b = 0 then None else Some (a div b))"

definition pymod :: "int \<Rightarrow> int \<Rightarrow> int option" where
  "pymod a b = (if b = 0 then None else Some (a mod b))"

text \<open>
  The decorator \<open>timed\<close>: the two readings of \<open>perf_counter()\<close> are inputs of the model
  (\<open>clock = (start, stop)\<close>), the wrapped call runs between them.
\<close>

definition timed :: "('p \<Rightarrow> 'r option) \<Rightarrow> real \<times> real \<Rightarrow> 'p \<Rightarrow> ('r \<times> real) option" where
  "timed func clock args = do {
     let start = fst clock;
     result \<leftarrow> func args;
     let elapsed = snd clock - start;
     Some (result, elapsed)
   }"

text \<open>
  The function under the decorator. The operator that \<open>//\<close> denotes is the parameter \<open>divide_op\<close>,
  used at each of the four places where the source divides; the function of the source is the
  one with Python's floor division.
\<close>

definition formula_with :: "(int \<Rightarrow> int \<Rightarrow> int option) \<Rightarrow> int \<Rightarrow> int option" where
  "formula_with divide_op n =
     (if n < 5 then Some 0
      else do {
        c \<leftarrow> comb n 4;
        base \<leftarrow> divide_op (c * 4) n;
        r \<leftarrow> pymod n 4;
        if r = 1 \<or> r = 3 then divide_op base 4
        else if r = 2 then divide_op (base * 2 + n - 2) 8
        else if r = 0 then divide_op (base * 2 + n - 6) 8
        else Some 0
      })"

definition formula :: "int \<Rightarrow> int option" where
  "formula = formula_with floordiv"

definition solve_with_formula :: "real \<times> real \<Rightarrow> int \<Rightarrow> (int \<times> real) option" where
  "solve_with_formula = timed formula"

text \<open>\<open>str(k)\<close> for an integer.\<close>

fun str_nat :: "nat \<Rightarrow> string" where
  "str_nat n =
     (if n < 10 then [char_of (48 + n)] else str_nat (n div 10) @ [char_of (48 + n mod 10)])"

definition str_int :: "int \<Rightarrow> string" where
  "str_int k = (if k < 0 then CHR ''-'' # str_nat (nat (- k)) else str_nat (nat k))"

text \<open>\<open>f"{progress_desc} (mult={multiplier})" if progress_desc else None\<close>.\<close>

definition mult_desc :: "string option \<Rightarrow> int \<Rightarrow> string option" where
  "mult_desc progress_desc multiplier =
     (case progress_desc of
        None \<Rightarrow> None
      | Some d \<Rightarrow> if d = [] then None else Some (d @ '' (mult='' @ str_int multiplier @ '')''))"

text \<open>\<open>sum(f(multiplier) for multiplier in (1, 2, 3))\<close>: the generator is consumed in order.\<close>

definition sum_over :: "int list \<Rightarrow> (int \<Rightarrow> int option) \<Rightarrow> int option" where
  "sum_over ks f = for_loop ks (\<lambda>k acc. do { v \<leftarrow> f k; Some (acc + v) }) 0"

definition dp_sum :: "int \<times> bool \<times> int option \<times> string option \<Rightarrow> int option" where
  "dp_sum = (\<lambda>(n, show_progress, progress_position, progress_desc).
     sum_over [1, 2, 3] (\<lambda>multiplier.
       count_quadruples (n * multiplier) n show_progress progress_position
         (mult_desc progress_desc multiplier)))"

definition solve_with_dp ::
  "real \<times> real \<Rightarrow> int \<Rightarrow> bool \<Rightarrow> int option \<Rightarrow> string option \<Rightarrow> (int \<times> real) option" where
  "solve_with_dp clock n show_progress progress_position progress_desc =
     timed dp_sum clock (n, show_progress, progress_position, progress_desc)"

definition pair_sum_sum :: "int \<times> bool \<times> int option \<times> string option \<Rightarrow> int option" where
  "pair_sum_sum = (\<lambda>(n, show_progress, progress_position, progress_desc).
     sum_over [1, 2, 3] (\<lambda>multiplier.
       count_quadruples_pair_sum (n * multiplier) n show_progress progress_position
         (mult_desc progress_desc multiplier)))"

definition solve_with_pair_sum ::
  "real \<times> real \<Rightarrow> int \<Rightarrow> bool \<Rightarrow> int option \<Rightarrow> string option \<Rightarrow> (int \<times> real) option" where
  "solve_with_pair_sum clock n show_progress progress_position progress_desc =
     timed pair_sum_sum clock (n, show_progress, progress_position, progress_desc)"

section \<open>What is counted\<close>

text \<open>A quadruple \<open>(a, b, c, d)\<close> with \<open>1 \<le> a < b < c < d \<le> M\<close>.\<close>

fun is_quadruple :: "int \<Rightarrow> int \<times> int \<times> int \<times> int \<Rightarrow> bool" where
  "is_quadruple M (a, b, c, d) \<longleftrightarrow> 1 \<le> a \<and> a < b \<and> b < c \<and> c < d \<and> d \<le> M"

fun quad_sum :: "int \<times> int \<times> int \<times> int \<Rightarrow> int" where
  "quad_sum (a, b, c, d) = a + b + c + d"

definition quadruples_with_sum :: "int \<Rightarrow> int \<Rightarrow> (int \<times> int \<times> int \<times> int) set" where
  "quadruples_with_sum N M = {q. is_quadruple M q \<and> quad_sum q = N}"

definition quadruples_divisible :: "int \<Rightarrow> (int \<times> int \<times> int \<times> int) set" where
  "quadruples_divisible n = {q. is_quadruple n q \<and> n dvd quad_sum q}"

text \<open>
  A division that insists on a zero remainder: it fails where the dividend is not a multiple of
  the divisor, and is the floor division otherwise.
\<close>

definition exact_div :: "int \<Rightarrow> int \<Rightarrow> int option" where
  "exact_div a b = (if b = 0 then None else if b dvd a then Some (a div b) else None)"

text \<open>
  The closed form as the specification words it, with the division of the rationals:
  \<open>base = C(n, 4) * 4 / n\<close>, then \<open>base / 4\<close>, \<open>(2 * base + n - 2) / 8\<close> or
  \<open>(2 * base + n - 6) / 8\<close> by the residue of \<open>n\<close> modulo 4, and 0 below 5.
\<close>

definition formula_rational :: "int \<Rightarrow> real" where
  "formula_rational n =
     (if n < 5 then 0
      else let base = real (nat n choose 4) * 4 / real_of_int n
           in if n mod 4 = 1 \<or> n mod 4 = 3 then base / 4
              else if n mod 4 = 2 then (2 * base + real_of_int n - 2) / 8
              else (2 * base + real_of_int n - 6) / 8)"

section \<open>The progress arguments\<close>

lemma count_quadruples_progress:
  "count_quadruples N M sp pp pd = count_quadruples N M False None None"
  by (simp add: count_quadruples_def tqdm_def)

lemma count_quadruples_pair_sum_progress:
  "count_quadruples_pair_sum N M sp pp pd = count_quadruples_pair_sum N M False None None"
  by (simp add: count_quadruples_pair_sum_def tqdm_def Let_def)

text \<open>
  C9. Whatever \<open>show_progress\<close>, \<open>progress_position\<close> and \<open>progress_desc\<close> are, both
  counters return what the call with \<open>show_progress=False\<close> and the other two at their
  default \<open>None\<close> returns.
\<close>

theorem progress_noninterference:
  "count_quadruples N M sp pp pd = count_quadruples N M False None None \<and>
   count_quadruples_pair_sum N M sp pp pd = count_quadruples_pair_sum N M False None None"
  by (simp add: count_quadruples_def count_quadruples_pair_sum_def tqdm_def Let_def)

section \<open>The range check\<close>

text \<open>
  C5. When \<open>N < 10\<close> or \<open>N > 4 * M - 6\<close>, both counters return 0: the guard is the first
  branch of each function, the table and the histogram are built in the other branch only.
\<close>

theorem range_short_circuit:
  "N < 10 \<or> N > 4 * M - 6 \<Longrightarrow>
     count_quadruples N M sp pp pd = Some 0 \<and> count_quadruples_pair_sum N M sp pp pd = Some 0"
  by (simp add: count_quadruples_def count_quadruples_pair_sum_def)

theorem range_short_circuit_witness:
  "((9::int) < 10 \<or> 9 > 4 * (10::int) - 6) \<and>
   count_quadruples 9 10 True None None = Some 0 \<and>
   count_quadruples_pair_sum 9 10 True None None = Some 0"
  using range_short_circuit [of 9 10 True None None] by simp

text \<open>
  C10. For every \<open>target_sum\<close> when \<open>upper_bound \<le> 3\<close> (zero and negative values
  included), and for every \<open>upper_bound\<close> when \<open>target_sum < 10\<close>, both counters return 0
  and do not raise.
\<close>

theorem nonpositive_inputs_return_zero:
  "M \<le> 3 \<or> N < 10 \<Longrightarrow>
     count_quadruples N M sp pp pd = Some 0 \<and> count_quadruples_pair_sum N M sp pp pd = Some 0"
  by (auto simp add: count_quadruples_def count_quadruples_pair_sum_def)

theorem nonpositive_inputs_return_zero_witness:
  "((-2::int) \<le> 3 \<or> (-7::int) < 10) \<and>
   count_quadruples (-7) (-2) True None None = Some 0 \<and>
   count_quadruples_pair_sum (-7) (-2) True None None = Some 0"
  using nonpositive_inputs_return_zero [of "-2" "-7" True None None] by simp

section \<open>The scenario N = 11, M = 5\<close>

text \<open>
  C7, as the code computes it. \<open>count_quadruples(11, 5)\<close> and
  \<open>count_quadruples_pair_sum(11, 5)\<close> both return 1: the only quadruple is \<open>(1, 2, 3, 5)\<close>.
\<close>

theorem scenario_11_5:
  "count_quadruples 11 5 sp pp pd = Some 1 \<and> count_quadruples_pair_sum 11 5 sp pp pd = Some 1"
proof
  have dp: "count_quadruples 11 5 False None None = Some 1"
    by code_simp
  show "count_quadruples 11 5 sp pp pd = Some 1"
    by (rule trans [OF count_quadruples_progress dp])
  have pair: "count_quadruples_pair_sum 11 5 False None None = Some 1"
    by code_simp
  show "count_quadruples_pair_sum 11 5 sp pp pd = Some 1"
    by (rule trans [OF count_quadruples_pair_sum_progress pair])
qed

text \<open>C7 as stated fails: with the default arguments neither call returns 2.\<close>

theorem scenario_11_5_counterexample:
  "\<not> (count_quadruples 11 5 True None None = Some 2 \<and>
      count_quadruples_pair_sum 11 5 True None None = Some 2)"
proof -
  have "count_quadruples 11 5 True None None = Some 1"
    by code_simp
  then show ?thesis
    by simp
qed

section \<open>Subsets of an initial segment, by size and element sum\<close>

text \<open>
  The subsets of \<open>{1, \<dots>, v}\<close> with \<open>k\<close> elements, and the sum of a weight \<open>f\<close>
  of the element sum over them.
\<close>

definition subsets :: "nat \<Rightarrow> nat \<Rightarrow> int set set" where
  "subsets v k = {S. S \<subseteq> {1..int v} \<and> card S = k}"

definition wsum :: "nat \<Rightarrow> nat \<Rightarrow> (int \<Rightarrow> 'a::comm_monoid_add) \<Rightarrow> 'a" where
  "wsum v k f = (\<Sum>S\<in>subsets v k. f (\<Sum>S))"

lemma finite_subsets [simp]: "finite (subsets v k)"
  by (simp add: subsets_def)

lemma subsets_finite_member: "S \<in> subsets v k \<Longrightarrow> finite S"
  by (auto simp: subsets_def intro: finite_subset)

lemma subsets_0 [simp]: "subsets v 0 = {{}}"
proof -
  have "S \<subseteq> {1..int v} \<Longrightarrow> card S = 0 \<longleftrightarrow> S = {}" for S
    using finite_subset [of S "{1..int v}"] by auto
  then show ?thesis by (auto simp: subsets_def)
qed

lemma subsets_0_Suc [simp]: "subsets 0 (Suc k) = {}"
  by (auto simp: subsets_def)

lemma interval_Suc: "{1..int (Suc v)} = insert (int v + 1) {1..int v}"
  by auto

lemma subsets_Suc:
  "subsets (Suc v) (Suc k) = subsets v (Suc k) \<union> insert (int v + 1) ` subsets v k"
proof (intro equalityI subsetI)
  fix S assume S: "S \<in> subsets (Suc v) (Suc k)"
  then have sub: "S \<subseteq> insert (int v + 1) {1..int v}" and card: "card S = Suc k"
    by (auto simp: subsets_def)
  have fin: "finite S" using S by (rule subsets_finite_member)
  show "S \<in> subsets v (Suc k) \<union> insert (int v + 1) ` subsets v k"
  proof (cases "int v + 1 \<in> S")
    case False
    with sub card have "S \<in> subsets v (Suc k)" by (auto simp: subsets_def)
    then show ?thesis by simp
  next
    case True
    let ?T = "S - {int v + 1}"
    have "?T \<subseteq> {1..int v}" using sub by auto
    moreover have "card ?T = k" using True card fin by simp
    ultimately have "?T \<in> subsets v k" by (simp add: subsets_def)
    moreover have "S = insert (int v + 1) ?T" using True by auto
    ultimately show ?thesis by blast
  qed
next
  fix S assume "S \<in> subsets v (Suc k) \<union> insert (int v + 1) ` subsets v k"
  then show "S \<in> subsets (Suc v) (Suc k)"
  proof
    assume "S \<in> subsets v (Suc k)"
    then show ?thesis by (auto simp: subsets_def)
  next
    assume "S \<in> insert (int v + 1) ` subsets v k"
    then obtain T where T: "T \<in> subsets v k" and S: "S = insert (int v + 1) T" by blast
    have fin: "finite T" using T by (rule subsets_finite_member)
    have notin: "int v + 1 \<notin> T" using T by (auto simp: subsets_def)
    have "card S = Suc k" using T fin notin S by (simp add: subsets_def)
    moreover have "S \<subseteq> {1..int (Suc v)}" using T S by (auto simp: subsets_def)
    ultimately show ?thesis by (simp add: subsets_def)
  qed
qed

lemma subsets_Suc_disjoint:
  "subsets v (Suc k) \<inter> insert (int v + 1) ` subsets v k = {}"
  by (auto simp: subsets_def)

lemma insert_inj_on_subsets: "inj_on (insert (int v + 1)) (subsets v k)"
proof (rule inj_onI)
  fix S T assume "S \<in> subsets v k" "T \<in> subsets v k" 
    and eq: "insert (int v + 1) S = insert (int v + 1) T"
  then have "int v + 1 \<notin> S" "int v + 1 \<notin> T" by (auto simp: subsets_def)
  with eq show "S = T" by (metis insert_ident)
qed

lemma sum_insert_subsets:
  assumes "S \<in> subsets v k"
  shows "\<Sum>(insert (int v + 1) S) = \<Sum>S + (int v + 1)"
proof -
  have "finite S" using assms by (rule subsets_finite_member)
  moreover have "int v + 1 \<notin> S" using assms by (auto simp: subsets_def)
  ultimately show ?thesis by simp
qed

lemma wsum_0 [simp]: "wsum v 0 f = f 0"
  by (simp add: wsum_def)

lemma wsum_0_Suc [simp]: "wsum 0 (Suc k) f = 0"
  by (simp add: wsum_def)

lemma wsum_Suc:
  "wsum (Suc v) (Suc k) f = wsum v (Suc k) f + wsum v k (\<lambda>s. f (s + (int v + 1)))"
proof -
  have "wsum (Suc v) (Suc k) f =
      (\<Sum>S\<in>subsets v (Suc k). f (\<Sum>S)) + (\<Sum>S\<in>insert (int v + 1) ` subsets v k. f (\<Sum>S))"
    unfolding wsum_def subsets_Suc
    by (rule sum.union_disjoint) (simp_all add: subsets_Suc_disjoint)
  also have "(\<Sum>S\<in>insert (int v + 1) ` subsets v k. f (\<Sum>S)) =
      (\<Sum>S\<in>subsets v k. f (\<Sum>(insert (int v + 1) S)))"
    by (simp add: sum.reindex [OF insert_inj_on_subsets])
  also have "\<dots> = (\<Sum>S\<in>subsets v k. f (\<Sum>S + (int v + 1)))"
    by (rule sum.cong) (simp_all add: sum_insert_subsets)
  finally show ?thesis by (simp add: wsum_def)
qed

lemma subsets_sum_nonneg: "S \<in> subsets v k \<Longrightarrow> 0 \<le> \<Sum>S"
  by (rule sum_nonneg) (auto simp: subsets_def)

lemma wsum_cong:
  "(\<And>s. 0 \<le> s \<Longrightarrow> f s = g s) \<Longrightarrow> wsum v k f = wsum v k g"
  unfolding wsum_def by (rule sum.cong) (simp_all add: subsets_sum_nonneg)

lemma card_subsets_filter:
  "card {S \<in> subsets v k. P (\<Sum>S)} = wsum v k (\<lambda>s. if P s then 1 else 0)"
  unfolding wsum_def by (simp add: sum.If_cases Int_def flip: sum.inter_filter)

lemma card_subsets: "card (subsets v k) = v choose k"
  unfolding subsets_def using n_subsets [of "{1..int v}" k] by simp

section \<open>Quadruples are four-element subsets\<close>

fun quad_set :: "int \<times> int \<times> int \<times> int \<Rightarrow> int set" where
  "quad_set (a, b, c, d) = {a, b, c, d}"

fun quad_list :: "int \<times> int \<times> int \<times> int \<Rightarrow> int list" where
  "quad_list (a, b, c, d) = [a, b, c, d]"

lemma quad_list_props:
  "is_quadruple M q \<Longrightarrow> sorted (quad_list q) \<and> distinct (quad_list q) \<and> set (quad_list q) = quad_set q"
  by (cases q) auto

lemma quad_list_inj: "quad_list p = quad_list q \<Longrightarrow> p = q"
  by (cases p; cases q) simp

lemma quad_set_inj:
  assumes "is_quadruple M p" "is_quadruple M q" "quad_set p = quad_set q"
  shows "p = q"
proof -
  have "quad_list p = quad_list q"
    using assms quad_list_props [of M p] quad_list_props [of M q]
    by (intro sorted_distinct_set_unique) simp_all
  then show ?thesis by (rule quad_list_inj)
qed

lemma quad_set_subsets:
  assumes "is_quadruple (int v) q"
  shows "quad_set q \<in> subsets v 4" and "\<Sum>(quad_set q) = quad_sum q"
proof -
  obtain a b c d where q: "q = (a, b, c, d)" by (cases q)
  with assms have ord: "1 \<le> a" "a < b" "b < c" "c < d" "d \<le> int v" by simp_all
  then have "card {a, b, c, d} = 4" by simp
  moreover have "{a, b, c, d} \<subseteq> {1..int v}" using ord by simp
  ultimately show "quad_set q \<in> subsets v 4" by (simp add: subsets_def q)
  show "\<Sum>(quad_set q) = quad_sum q" using ord by (simp add: q)
qed

lemma length_4_list:
  assumes "length xs = 4"
  obtains a b c d where "xs = [a, b, c, d]"
proof -
  from assms obtain a ys where 1: "xs = a # ys" "length ys = 3"
    by (cases xs) auto
  then obtain b zs where 2: "ys = b # zs" "length zs = 2"
    by (cases ys) auto
  then obtain c ws where 3: "zs = c # ws" "length ws = 1"
    by (cases zs) auto
  then obtain d where "ws = [d]"
    by (cases ws) auto
  with 1 2 3 that show ?thesis by simp
qed

lemma subsets_quad_set:
  assumes "S \<in> subsets v 4"
  obtains q where "is_quadruple (int v) q" and "quad_set q = S"
proof -
  from assms have fin: "finite S" and card: "card S = 4" and sub: "S \<subseteq> {1..int v}"
    by (auto simp: subsets_def intro: finite_subset)
  let ?xs = "sorted_list_of_set S"
  have "length ?xs = 4" using card by simp
  then obtain a b c d where xs: "?xs = [a, b, c, d]" by (rule length_4_list)
  have set: "set ?xs = S" and "sorted ?xs" "distinct ?xs" using fin by simp_all
  then have S: "S = {a, b, c, d}" and "sorted [a, b, c, d]" "distinct [a, b, c, d]"
    by (simp_all add: xs)
  then have ord: "a < b" "b < c" "c < d" by simp_all
  have "a \<in> {1..int v}" "d \<in> {1..int v}" using sub S by blast+
  with ord have "is_quadruple (int v) (a, b, c, d)" by simp
  moreover have "quad_set (a, b, c, d) = S" using S by simp
  ultimately show ?thesis by (rule that)
qed

lemma quad_set_bij:
  "bij_betw quad_set {q. is_quadruple (int v) q \<and> P (quad_sum q)} {S \<in> subsets v 4. P (\<Sum>S)}"
  unfolding bij_betw_def
proof (intro conjI equalityI subsetI)
  show "inj_on quad_set {q. is_quadruple (int v) q \<and> P (quad_sum q)}"
  proof (rule inj_onI)
    fix p q
    assume "p \<in> {q. is_quadruple (int v) q \<and> P (quad_sum q)}"
      and "q \<in> {q. is_quadruple (int v) q \<and> P (quad_sum q)}"
      and eq: "quad_set p = quad_set q"
    then have "is_quadruple (int v) p" "is_quadruple (int v) q" by blast+
    then show "p = q" using eq by (rule quad_set_inj)
  qed
next
  fix S assume "S \<in> quad_set ` {q. is_quadruple (int v) q \<and> P (quad_sum q)}"
  then obtain q where q: "is_quadruple (int v) q" "P (quad_sum q)" and S: "S = quad_set q"
    by blast
  from quad_set_subsets [OF q(1)] q(2) S show "S \<in> {S \<in> subsets v 4. P (\<Sum>S)}"
    by simp
next
  fix S assume "S \<in> {S \<in> subsets v 4. P (\<Sum>S)}"
  then have S: "S \<in> subsets v 4" and P: "P (\<Sum>S)" by auto
  from S obtain q where q: "is_quadruple (int v) q" "quad_set q = S"
    by (rule subsets_quad_set)
  with P quad_set_subsets(2) [OF q(1)] have "P (quad_sum q)" by simp
  with q show "S \<in> quad_set ` {q. is_quadruple (int v) q \<and> P (quad_sum q)}"
    by blast
qed

lemma card_quadruples:
  "card {q. is_quadruple (int v) q \<and> P (quad_sum q)} = card {S \<in> subsets v 4. P (\<Sum>S)}"
  by (rule bij_betw_same_card [OF quad_set_bij])

section \<open>The dynamic-programming counter counts subsets\<close>

text \<open>The number of \<open>k\<close>-element subsets of \<open>{1, \<dots>, v}\<close> with sum \<open>s\<close>.\<close>

definition cnt :: "nat \<Rightarrow> nat \<Rightarrow> int \<Rightarrow> nat" where
  "cnt v k s = card {S \<in> subsets v k. \<Sum>S = s}"

lemma cnt_wsum: "cnt v k s = wsum v k (\<lambda>x. if x = s then 1 else 0)"
  unfolding cnt_def by (rule card_subsets_filter)

lemma cnt_0: "cnt v 0 s = (if s = 0 then 1 else 0)"
  by (simp add: cnt_wsum)

lemma cnt_0_Suc: "cnt 0 (Suc k) s = 0"
  by (simp add: cnt_wsum)

lemma cnt_Suc: "cnt (Suc v) (Suc k) s = cnt v (Suc k) s + cnt v k (s - int (Suc v))"
proof -
  have "(\<lambda>x. if x + (int v + 1) = s then 1 else 0 :: nat) = (\<lambda>x. if x = s - int (Suc v) then 1 else 0)"
    by (rule ext) auto
  then show ?thesis
    by (simp add: cnt_wsum wsum_Suc)
qed

lemma cnt_negative: "s < 0 \<Longrightarrow> cnt v k s = 0"
proof -
  assume "s < 0"
  then have "{S \<in> subsets v k. \<Sum>S = s} = {}"
    using subsets_sum_nonneg [of _ v k] by force
  then show ?thesis by (simp add: cnt_def)
qed

lemma getitem_nat: "j < length xs \<Longrightarrow> getitem xs (int j) = Some (xs ! j)"
  by (simp add: getitem_def list_index_def)

lemma setitem_nat: "j < length xs \<Longrightarrow> setitem xs (int j) v = Some (xs[j := v])"
  by (simp add: setitem_def list_index_def)

lemma getitem_int: "0 \<le> i \<Longrightarrow> i < int (length xs) \<Longrightarrow> getitem xs i = Some (xs ! nat i)"
  by (simp add: getitem_def list_index_def)

lemma setitem_int: "0 \<le> i \<Longrightarrow> i < int (length xs) \<Longrightarrow> setitem xs i v = Some (xs[nat i := v])"
  by (simp add: setitem_def list_index_def)

lemma for_loop_append:
  "for_loop (xs @ ys) body s = for_loop xs body s \<bind> for_loop ys body"
proof (induction xs arbitrary: s)
  case Nil
  then show ?case by simp
next
  case (Cons x xs)
  then show ?case by (cases "body x s") simp_all
qed

lemma dp_update_eq:
  assumes "Suc k < length t" "0 \<le> c" "c \<le> s" "s < int (length (t ! Suc k))"
    "length (t ! k) = length (t ! Suc k)"
  shows "dp_update c (int (Suc k)) s t =
    Some (t[Suc k := (t ! Suc k)[nat s := t ! Suc k ! nat s + t ! k ! nat (s - c)]])"
proof -
  define i where "i = int (Suc k)"
  have 1: "getitem t i = Some (t ! Suc k)"
    unfolding i_def using assms by (intro getitem_nat) simp
  have 2: "getitem (t ! Suc k) s = Some (t ! Suc k ! nat s)"
    using assms by (intro getitem_int) simp_all
  have "getitem t (int k) = Some (t ! k)"
    using assms by (intro getitem_nat) simp
  then have 3: "getitem t (i - 1) = Some (t ! k)"
    by (simp add: i_def)
  have 4: "getitem (t ! k) (s - c) = Some (t ! k ! nat (s - c))"
    using assms by (intro getitem_int) simp_all
  have 5: "setitem (t ! Suc k) s x = Some ((t ! Suc k)[nat s := x])" for x
    using assms by (intro setitem_int) simp_all
  have 6: "setitem t i r = Some (t[Suc k := r])" for r
    unfolding i_def using assms by (intro setitem_nat) simp
  have "dp_update c i s t =
    Some (t[Suc k := (t ! Suc k)[nat s := t ! Suc k ! nat s + t ! k ! nat (s - c)]])"
    by (simp add: dp_update_def 1 2 3 4 5 6)
  then show ?thesis by (simp only: i_def)
qed

text \<open>One pass of the innermost loop over a row: the sums in \<open>ss\<close> are updated from the row above.\<close>

lemma dp_row:
  assumes "Suc k < length t" "0 \<le> c" "distinct ss"
    "\<forall>s\<in>set ss. c \<le> s \<and> s < int L" "length (t ! Suc k) = L" "length (t ! k) = L"
  shows "\<exists>t'. for_loop ss (dp_update c (int (Suc k))) t = Some t' \<and> length t' = length t \<and>
    (\<forall>j. j \<noteq> Suc k \<longrightarrow> t' ! j = t ! j) \<and> length (t' ! Suc k) = L \<and>
    (\<forall>j<L. t' ! Suc k ! j =
       (if int j \<in> set ss then t ! Suc k ! j + t ! k ! nat (int j - c) else t ! Suc k ! j))"
  using assms
proof (induction ss arbitrary: t)
  case Nil
  then show ?case by simp
next
  case (Cons s ss)
  define r where "r = (t ! Suc k)[nat s := t ! Suc k ! nat s + t ! k ! nat (s - c)]"
  define t1 where "t1 = t[Suc k := r]"
  have s: "c \<le> s" "s < int L" "s \<notin> set ss" using Cons.prems by simp_all
  have step: "dp_update c (int (Suc k)) s t = Some t1"
    unfolding t1_def r_def using Cons.prems s by (intro dp_update_eq) simp_all
  have k1: "t1 ! Suc k = r"
    using Cons.prems by (simp add: t1_def)
  have k0: "t1 ! k = t ! k"
    by (simp add: t1_def)
  have len: "length t1 = length t" by (simp add: t1_def)
  have lenr: "length r = L" using Cons.prems by (simp add: r_def)
  have "\<exists>t'. for_loop ss (dp_update c (int (Suc k))) t1 = Some t' \<and> length t' = length t1 \<and>
    (\<forall>j. j \<noteq> Suc k \<longrightarrow> t' ! j = t1 ! j) \<and> length (t' ! Suc k) = L \<and>
    (\<forall>j<L. t' ! Suc k ! j =
       (if int j \<in> set ss then t1 ! Suc k ! j + t1 ! k ! nat (int j - c) else t1 ! Suc k ! j))"
    using Cons.prems by (intro Cons.IH) (simp_all add: k0 k1 len lenr)
  then obtain t' where t': "for_loop ss (dp_update c (int (Suc k))) t1 = Some t'"
    "length t' = length t1" "\<forall>j. j \<noteq> Suc k \<longrightarrow> t' ! j = t1 ! j" "length (t' ! Suc k) = L"
    "\<forall>j<L. t' ! Suc k ! j =
       (if int j \<in> set ss then r ! j + t ! k ! nat (int j - c) else r ! j)"
    unfolding k0 k1 by blast
  have "for_loop (s # ss) (dp_update c (int (Suc k))) t = Some t'"
    using step t'(1) by simp
  moreover have "length t' = length t" using t'(2) len by simp
  moreover have "\<forall>j. j \<noteq> Suc k \<longrightarrow> t' ! j = t ! j" using t'(3) by (simp add: t1_def)
  moreover have "\<forall>j<L. t' ! Suc k ! j =
      (if int j \<in> set (s # ss) then t ! Suc k ! j + t ! k ! nat (int j - c) else t ! Suc k ! j)"
  proof (intro allI impI)
    fix j assume j: "j < L"
    show "t' ! Suc k ! j =
      (if int j \<in> set (s # ss) then t ! Suc k ! j + t ! k ! nat (int j - c) else t ! Suc k ! j)"
    proof (cases "int j = s")
      case True
      then have "nat s = j" by simp
      then have "r ! j = t ! Suc k ! j + t ! k ! nat (int j - c)"
        using True j Cons.prems by (simp add: r_def)
      with True s j t'(5) show ?thesis
        by simp
    next
      case False
      then have "nat s \<noteq> j" using s Cons.prems by auto
      then have "r ! j = t ! Suc k ! j" by (simp add: r_def)
      with False j t'(5) show ?thesis
        by simp
    qed
  qed
  ultimately show ?case using t'(4) by blast
qed

lemma range_down_props:
  "distinct (range_down hi lo)" "set (range_down hi lo) = {lo + 1..hi}"
  by (simp_all add: range_down_def)

text \<open>The innermost loop as the code runs it, from \<open>target_sum\<close> down to \<open>candidate\<close>.\<close>

lemma dp_row_pass:
  assumes "Suc k < length t" "0 \<le> c" "length (t ! Suc k) = L" "length (t ! k) = L"
  shows "\<exists>t'. for_loop (range_down (int L - 1) (c - 1)) (dp_update c (int (Suc k))) t = Some t' \<and>
    length t' = length t \<and> (\<forall>j. j \<noteq> Suc k \<longrightarrow> t' ! j = t ! j) \<and> length (t' ! Suc k) = L \<and>
    (\<forall>j<L. t' ! Suc k ! j = t ! Suc k ! j + (if c \<le> int j then t ! k ! nat (int j - c) else 0))"
proof -
  let ?ss = "range_down (int L - 1) (c - 1)"
  have set: "set ?ss = {c..int L - 1}" by (simp add: range_down_props)
  have "\<exists>t'. for_loop ?ss (dp_update c (int (Suc k))) t = Some t' \<and> length t' = length t \<and>
    (\<forall>j. j \<noteq> Suc k \<longrightarrow> t' ! j = t ! j) \<and> length (t' ! Suc k) = L \<and>
    (\<forall>j<L. t' ! Suc k ! j =
       (if int j \<in> set ?ss then t ! Suc k ! j + t ! k ! nat (int j - c) else t ! Suc k ! j))"
    using assms by (intro dp_row) (simp_all add: range_down_props)
  then obtain t' where t': "for_loop ?ss (dp_update c (int (Suc k))) t = Some t'"
    "length t' = length t" "\<forall>j. j \<noteq> Suc k \<longrightarrow> t' ! j = t ! j" "length (t' ! Suc k) = L"
    "\<forall>j<L. t' ! Suc k ! j =
       (if int j \<in> set ?ss then t ! Suc k ! j + t ! k ! nat (int j - c) else t ! Suc k ! j)"
    by blast
  have "\<forall>j<L. t' ! Suc k ! j = t ! Suc k ! j + (if c \<le> int j then t ! k ! nat (int j - c) else 0)"
  proof (intro allI impI)
    fix j assume j: "j < L"
    then have "int j \<in> set ?ss \<longleftrightarrow> c \<le> int j" unfolding set by auto
    with t'(5) j show "t' ! Suc k ! j = t ! Suc k ! j + (if c \<le> int j then t ! k ! nat (int j - c) else 0)"
      by simp
  qed
  with t'(1-4) show ?thesis by blast
qed

lemma range_down_4_0: "range_down 4 0 = map (\<lambda>k. int (Suc k)) (rev [0..<4])"
  by (simp add: range_down_def upto.simps upt_rec)

text \<open>
  The rows \<open>n, \<dots>, 1\<close> in this order: each row is updated from the row above it, which
  is still as it was before the candidate.
\<close>

lemma dp_rows:
  assumes "n < length t" "\<forall>k\<le>n. length (t ! k) = L" "0 \<le> c"
  shows "\<exists>t'. for_loop (map (\<lambda>k. int (Suc k)) (rev [0..<n]))
        (\<lambda>i. for_loop (range_down (int L - 1) (c - 1)) (dp_update c i)) t = Some t' \<and>
    length t' = length t \<and> (\<forall>k. n < k \<longrightarrow> t' ! k = t ! k) \<and> t' ! 0 = t ! 0 \<and>
    (\<forall>k\<le>n. length (t' ! k) = L) \<and>
    (\<forall>k<n. \<forall>j<L. t' ! Suc k ! j = t ! Suc k ! j + (if c \<le> int j then t ! k ! nat (int j - c) else 0))"
  using assms
proof (induction n arbitrary: t)
  case 0
  then show ?case by simp
next
  case (Suc n)
  let ?pass = "\<lambda>i. for_loop (range_down (int L - 1) (c - 1)) (dp_update c i)"
  obtain t1 where t1: "?pass (int (Suc n)) t = Some t1" "length t1 = length t"
    "\<forall>j. j \<noteq> Suc n \<longrightarrow> t1 ! j = t ! j" "length (t1 ! Suc n) = L"
    "\<forall>j<L. t1 ! Suc n ! j = t ! Suc n ! j + (if c \<le> int j then t ! n ! nat (int j - c) else 0)"
    using dp_row_pass [of n t c L] Suc.prems by auto
  have "\<exists>t'. for_loop (map (\<lambda>k. int (Suc k)) (rev [0..<n])) ?pass t1 = Some t' \<and>
    length t' = length t1 \<and> (\<forall>k. n < k \<longrightarrow> t' ! k = t1 ! k) \<and> t' ! 0 = t1 ! 0 \<and>
    (\<forall>k\<le>n. length (t' ! k) = L) \<and>
    (\<forall>k<n. \<forall>j<L. t' ! Suc k ! j = t1 ! Suc k ! j + (if c \<le> int j then t1 ! k ! nat (int j - c) else 0))"
    using Suc.prems t1(2,3) by (intro Suc.IH) simp_all
  then obtain t' where t': "for_loop (map (\<lambda>k. int (Suc k)) (rev [0..<n])) ?pass t1 = Some t'"
    "length t' = length t1" "\<forall>k. n < k \<longrightarrow> t' ! k = t1 ! k" "t' ! 0 = t1 ! 0"
    "\<forall>k\<le>n. length (t' ! k) = L"
    "\<forall>k<n. \<forall>j<L. t' ! Suc k ! j = t1 ! Suc k ! j + (if c \<le> int j then t1 ! k ! nat (int j - c) else 0)"
    by blast
  have "for_loop (map (\<lambda>k. int (Suc k)) (rev [0..<Suc n])) ?pass t = Some t'"
    using t1(1) t'(1) by simp
  moreover have "length t' = length t" using t'(2) t1(2) by simp
  moreover have "\<forall>k. Suc n < k \<longrightarrow> t' ! k = t ! k" using t'(3) t1(3) by simp
  moreover have "t' ! 0 = t ! 0" using t'(4) t1(3) by simp
  moreover have "\<forall>k\<le>Suc n. length (t' ! k) = L"
  proof (intro allI impI)
    fix k assume "k \<le> Suc n"
    then consider "k \<le> n" | "k = Suc n" by linarith
    then show "length (t' ! k) = L"
    proof cases
      case 1
      with t'(5) show ?thesis by simp
    next
      case 2
      with t'(3) t1(4) show ?thesis by simp
    qed
  qed
  moreover have "\<forall>k<Suc n. \<forall>j<L.
      t' ! Suc k ! j = t ! Suc k ! j + (if c \<le> int j then t ! k ! nat (int j - c) else 0)"
  proof (intro allI impI)
    fix k j assume k: "k < Suc n" and j: "j < L"
    then consider "k < n" | "k = n" by linarith
    then show "t' ! Suc k ! j = t ! Suc k ! j + (if c \<le> int j then t ! k ! nat (int j - c) else 0)"
    proof cases
      case 1
      then have "t1 ! Suc k = t ! Suc k" "t1 ! k = t ! k" using t1(3) by simp_all
      with t'(6) 1 j show ?thesis by simp
    next
      case 2
      then have "t' ! Suc k = t1 ! Suc n" using t'(3) by simp
      with t1(5) j 2 show ?thesis by simp
    qed
  qed
  ultimately show ?case by blast
qed

lemma dp_candidate_rows:
  assumes "length t = 5" and "\<forall>k<5. length (t ! k) = L" and "0 \<le> c"
  shows "\<exists>t'. dp_candidate (int L - 1) c t = Some t' \<and> length t' = 5 \<and>
    (\<forall>k<5. length (t' ! k) = L) \<and> t' ! 0 = t ! 0 \<and>
    (\<forall>k<4. \<forall>j<L. t' ! Suc k ! j = t ! Suc k ! j + (if c \<le> int j then t ! k ! nat (int j - c) else 0))"
proof -
  let ?new = "\<lambda>t' k j. t' ! Suc k ! j = t ! Suc k ! j + (if c \<le> int j then t ! k ! nat (int j - c) else 0)"
  have "\<exists>t'. for_loop (map (\<lambda>k. int (Suc k)) (rev [0..<4]))
        (\<lambda>i. for_loop (range_down (int L - 1) (c - 1)) (dp_update c i)) t = Some t' \<and>
    length t' = length t \<and> (\<forall>k. 4 < k \<longrightarrow> t' ! k = t ! k) \<and> t' ! 0 = t ! 0 \<and>
    (\<forall>k\<le>4. length (t' ! k) = L) \<and> (\<forall>k<4. \<forall>j<L. ?new t' k j)"
    using assms by (intro dp_rows) simp_all
  then obtain t' where run: "for_loop (map (\<lambda>k. int (Suc k)) (rev [0..<4]))
        (\<lambda>i. for_loop (range_down (int L - 1) (c - 1)) (dp_update c i)) t = Some t'"
    and len: "length t' = length t" and r0: "t' ! 0 = t ! 0"
    and rows: "\<forall>k\<le>4. length (t' ! k) = L" and new: "\<forall>k<4. \<forall>j<L. ?new t' k j"
    by blast
  have "dp_candidate (int L - 1) c t = Some t'"
    unfolding dp_candidate_def range_down_4_0 by (rule run)
  moreover have "length t' = 5" using len assms(1) by simp
  moreover have "\<forall>k<5. length (t' ! k) = L" using rows by simp
  ultimately show ?thesis using r0 new by blast
qed

text \<open>
  The loop invariant: after the candidates \<open>1, \<dots>, v\<close>, entry \<open>[k][j]\<close> of the table is
  the number of \<open>k\<close>-element subsets of \<open>{1, \<dots>, v}\<close> with sum \<open>j\<close>.
\<close>

definition dp_table :: "nat \<Rightarrow> nat \<Rightarrow> int list list \<Rightarrow> bool" where
  "dp_table L v t \<longleftrightarrow>
     length t = 5 \<and> (\<forall>k<5. length (t ! k) = L \<and> (\<forall>j<L. t ! k ! j = int (cnt v k (int j))))"

lemma dp_table_initial:
  "dp_table L 0 ((replicate 5 (replicate L 0))[0 := (replicate L 0)[0 := 1]])"
proof -
  have "((replicate 5 (replicate L 0))[0 := (replicate L 0)[0 := 1]]) ! k ! j = int (cnt 0 k (int j))"
    if "k < 5" "j < L" for k j
  proof (cases k)
    case 0
    with that show ?thesis by (cases j) (simp_all add: cnt_0)
  next
    case (Suc k')
    with that show ?thesis by (simp add: cnt_0_Suc)
  qed
  moreover have "length (((replicate 5 (replicate L 0))[0 := (replicate L (0::int))[0 := 1]]) ! k) = L"
    if "k < 5" for k
    using that by (cases k) simp_all
  ultimately show ?thesis by (simp add: dp_table_def)
qed

lemma dp_table_step:
  assumes "dp_table L v t"
  shows "\<exists>t'. dp_candidate (int L - 1) (int (Suc v)) t = Some t' \<and> dp_table L (Suc v) t'"
proof -
  have len: "length t = 5" and rows: "\<forall>k<5. length (t ! k) = L"
    and old: "\<And>k j. k < 5 \<Longrightarrow> j < L \<Longrightarrow> t ! k ! j = int (cnt v k (int j))"
    using assms by (simp_all add: dp_table_def)
  let ?c = "int (Suc v)"
  have "\<exists>t'. dp_candidate (int L - 1) ?c t = Some t' \<and> length t' = 5 \<and>
    (\<forall>k<5. length (t' ! k) = L) \<and> t' ! 0 = t ! 0 \<and>
    (\<forall>k<4. \<forall>j<L. t' ! Suc k ! j = t ! Suc k ! j + (if ?c \<le> int j then t ! k ! nat (int j - ?c) else 0))"
    using len rows by (intro dp_candidate_rows) simp_all
  then obtain t' where run: "dp_candidate (int L - 1) ?c t = Some t'" and len': "length t' = 5"
    and rows': "\<forall>k<5. length (t' ! k) = L" and r0: "t' ! 0 = t ! 0"
    and new: "\<And>k j. k < 4 \<Longrightarrow> j < L \<Longrightarrow>
      t' ! Suc k ! j = t ! Suc k ! j + (if ?c \<le> int j then t ! k ! nat (int j - ?c) else 0)"
    by blast
  have "t' ! k ! j = int (cnt (Suc v) k (int j))" if k: "k < 5" and j: "j < L" for k j
  proof (cases k)
    case 0
    with r0 old [of 0 j] j show ?thesis by (simp add: cnt_0)
  next
    case (Suc k')
    then have k': "k' < 4" "k' < 5" using k by simp_all
    show ?thesis
    proof (cases "?c \<le> int j")
      case True
      then have "nat (int j - ?c) < L" "int (nat (int j - ?c)) = int j - ?c"
        using j by simp_all
      with True new [OF k'(1) j] old [of k' "nat (int j - ?c)"] old [of k j] k k' j Suc
      show ?thesis by (simp add: cnt_Suc)
    next
      case False
      then have "cnt v k' (int j - ?c) = 0" by (intro cnt_negative) simp
      with False new [OF k'(1) j] old [of k j] k j Suc
      show ?thesis by (simp add: cnt_Suc)
    qed
  qed
  with len' rows' have "dp_table L (Suc v) t'" by (simp add: dp_table_def)
  with run show ?thesis by blast
qed

lemma dp_outer_loop:
  assumes "dp_table L 0 t"
  shows "\<exists>t'. for_loop [1..int v] (dp_candidate (int L - 1)) t = Some t' \<and> dp_table L v t'"
proof (induction v)
  case 0
  with assms show ?case by simp
next
  case (Suc v)
  then obtain t1 where t1: "for_loop [1..int v] (dp_candidate (int L - 1)) t = Some t1"
    "dp_table L v t1" by blast
  obtain t' where t': "dp_candidate (int L - 1) (int (Suc v)) t1 = Some t'" "dp_table L (Suc v) t'"
    using dp_table_step [OF t1(2)] by blast
  have "[1..int (Suc v)] = [1..int v] @ [int (Suc v)]"
    using upto_rec2 [of 1 "int (Suc v)"] by simp
  then have "for_loop [1..int (Suc v)] (dp_candidate (int L - 1)) t = Some t'"
    using t1(1) t'(1) by (simp add: for_loop_append)
  with t'(2) show ?case by blast
qed

text \<open>The dynamic-programming counter returns the number of four-element subsets with the sum.\<close>

lemma count_quadruples_cnt:
  assumes "10 \<le> N" "N \<le> 4 * M - 6"
  shows "count_quadruples N M sp pp pd = Some (int (cnt (nat M) 4 N))"
proof -
  define L where "L = nat (N + 1)"
  define t0 where "t0 = (replicate 5 (replicate L (0::int)))[0 := (replicate L 0)[0 := 1]]"
  have N: "N = int L - 1" and L: "0 < L" and M: "M = int (nat M)"
    using assms by (simp_all add: L_def)
  obtain t where t: "for_loop [1..int (nat M)] (dp_candidate (int L - 1)) t0 = Some t"
    "dp_table L (nat M) t"
    using dp_outer_loop [OF dp_table_initial, where v = "nat M" and L = L] unfolding t0_def by blast
  have init1: "getitem (replicate 5 (list_times (0::int) (N + 1))) 0 = Some (replicate L 0)"
    by (simp add: getitem_def list_index_def list_times_def L_def)
  have init2: "setitem (replicate L (0::int)) 0 1 = Some ((replicate L 0)[0 := 1])"
    using L by (simp add: setitem_def list_index_def)
  have init3: "setitem (replicate 5 (list_times (0::int) (N + 1))) 0 r =
      Some ((replicate 5 (replicate L 0))[0 := r])" for r
    by (simp add: setitem_def list_index_def list_times_def L_def)
  have loop: "for_loop (range_up 1 (M + 1)) (dp_candidate N) t0 = Some t"
    using t(1) M N by (simp add: range_up_def)
  have "length t = 5" "length (t ! 4) = L" "t ! 4 ! nat N = int (cnt (nat M) 4 (int (nat N)))"
    using t(2) L N by (simp_all add: dp_table_def)
  then have fin: "getitem t 4 = Some (t ! 4)" "getitem (t ! 4) N = Some (int (cnt (nat M) 4 N))"
    using assms N by (simp_all add: getitem_def list_index_def)
  have "count_quadruples N M False None None = Some (int (cnt (nat M) 4 N))"
    using assms by (simp add: count_quadruples_def init1 init2 init3 loop fin flip: t0_def)
  then show ?thesis by (simp only: count_quadruples_progress [of N M sp pp pd])
qed

section \<open>The pair-sum counter counts quadruples\<close>

text \<open>The pairs \<open>(c, d)\<close> with \<open>b < c < d \<le> M\<close> and \<open>c + d = s\<close>.\<close>

definition pairs_above :: "int \<Rightarrow> int \<Rightarrow> int \<Rightarrow> (int \<times> int) set" where
  "pairs_above b M s = {(c, d). b < c \<and> c < d \<and> d \<le> M \<and> c + d = s}"

text \<open>The quadruples with sum \<open>N\<close> whose second component is \<open>b\<close>.\<close>

definition quadruples_second :: "int \<Rightarrow> int \<Rightarrow> int \<Rightarrow> (int \<times> int \<times> int \<times> int) set" where
  "quadruples_second N M b = {(a, b', c, d). b' = b \<and> 1 \<le> a \<and> a < b \<and> (c, d) \<in> pairs_above b M (N - a - b)}"

lemma finite_pairs_above [simp]: "finite (pairs_above b M s)"
proof (rule finite_subset)
  show "pairs_above b M s \<subseteq> {b..M} \<times> {b..M}"
    by (auto simp: pairs_above_def)
qed simp

lemma pairs_above_step:
  "pairs_above b M s =
     pairs_above (b + 1) M s \<union> (if s - (b + 1) \<in> {b + 2..M} then {(b + 1, s - (b + 1))} else {})"
  by (auto simp: pairs_above_def)

lemma card_pairs_above_step:
  "card (pairs_above b M s) =
     card (pairs_above (b + 1) M s) + (if s - (b + 1) \<in> {b + 2..M} then 1 else 0)"
proof -
  have "(b + 1, s - (b + 1)) \<notin> pairs_above (b + 1) M s"
    by (simp add: pairs_above_def)
  then show ?thesis
    by (subst pairs_above_step) simp
qed

lemma pairs_above_range:
  "pairs_above b M s \<noteq> {} \<Longrightarrow> 2 * b + 3 \<le> s \<and> s \<le> 2 * M - 1"
  by (auto simp: pairs_above_def)

lemma pairs_above_top: "M - 1 \<le> b \<Longrightarrow> pairs_above b M s = {}"
  by (auto simp: pairs_above_def)

lemma register_pair_eq:
  assumes "0 \<le> th + f" "th + f < int (length pc)"
  shows "register_pair th f pc = Some (pc[nat (th + f) := pc ! nat (th + f) + 1])"
  using assms by (simp add: register_pair_def getitem_int setitem_int)

lemma register_loop:
  assumes "distinct fs" "\<forall>f\<in>set fs. 0 \<le> th + f \<and> th + f < int (length pc)"
  shows "\<exists>pc'. for_loop fs (register_pair th) pc = Some pc' \<and> length pc' = length pc \<and>
    (\<forall>j<length pc. pc' ! j = pc ! j + (if int j - th \<in> set fs then 1 else 0))"
  using assms
proof (induction fs arbitrary: pc)
  case Nil
  then show ?case by simp
next
  case (Cons f fs)
  define pc1 where "pc1 = pc[nat (th + f) := pc ! nat (th + f) + 1]"
  have f: "0 \<le> th + f" "th + f < int (length pc)" "f \<notin> set fs" using Cons.prems by simp_all
  have step: "register_pair th f pc = Some pc1"
    unfolding pc1_def using f by (intro register_pair_eq)
  have len: "length pc1 = length pc" by (simp add: pc1_def)
  have "\<exists>pc'. for_loop fs (register_pair th) pc1 = Some pc' \<and> length pc' = length pc1 \<and>
    (\<forall>j<length pc1. pc' ! j = pc1 ! j + (if int j - th \<in> set fs then 1 else 0))"
    using Cons.prems by (intro Cons.IH) (simp_all add: len)
  then obtain pc' where pc': "for_loop fs (register_pair th) pc1 = Some pc'"
    "length pc' = length pc" 
    "\<forall>j<length pc. pc' ! j = pc1 ! j + (if int j - th \<in> set fs then 1 else 0)"
    unfolding len by blast
  have "for_loop (f # fs) (register_pair th) pc = Some pc'"
    using step pc'(1) by simp
  moreover have "\<forall>j<length pc. pc' ! j = pc ! j + (if int j - th \<in> set (f # fs) then 1 else 0)"
  proof (intro allI impI)
    fix j assume j: "j < length pc"
    show "pc' ! j = pc ! j + (if int j - th \<in> set (f # fs) then 1 else 0)"
    proof (cases "int j - th = f")
      case True
      then have "nat (th + f) = j" by simp
      then have "pc1 ! j = pc ! j + 1" using j by (simp add: pc1_def)
      with True f pc'(3) j show ?thesis by simp
    next
      case False
      then have "nat (th + f) \<noteq> j" using f by auto
      then have "pc1 ! j = pc ! j" by (simp add: pc1_def)
      with False pc'(3) j show ?thesis by simp
    qed
  qed
  ultimately show ?case using pc'(2) by blast
qed

lemma query_loop:
  assumes "0 \<le> M" "length pc = nat (2 * M + 1)"
  shows "for_loop as (query_pair M swf pc) tot =
    Some (tot + (\<Sum>a\<leftarrow>as. if 0 \<le> swf - a \<and> swf - a \<le> 2 * M then pc ! nat (swf - a) else 0))"
proof (induction as arbitrary: tot)
  case Nil
  then show ?case by simp
next
  case (Cons a as)
  have "query_pair M swf pc a tot =
      Some (tot + (if 0 \<le> swf - a \<and> swf - a \<le> 2 * M then pc ! nat (swf - a) else 0))"
    using assms by (simp add: query_pair_def getitem_int Let_def)
  with Cons.IH show ?case by (simp add: add.assoc)
qed

lemma finite_quadruples_second [simp]: "finite (quadruples_second N M b)"
proof (rule finite_subset)
  show "quadruples_second N M b \<subseteq> {1..b} \<times> {b} \<times> {b..M} \<times> {b..M}"
    by (auto simp: quadruples_second_def pairs_above_def)
qed simp

lemma card_quadruples_second:
  "card (quadruples_second N M b) = (\<Sum>a\<in>{1..b - 1}. card (pairs_above b M (N - b - a)))"
proof -
  let ?B = "\<lambda>a. pairs_above b M (N - b - a)"
  let ?f = "\<lambda>(a, c, d). (a, b, c, d)"
  have inj: "inj_on ?f (Sigma {1..b - 1} ?B)"
    by (rule inj_onI) auto
  have "quadruples_second N M b = ?f ` Sigma {1..b - 1} ?B"
  proof (intro equalityI subsetI)
    fix q assume "q \<in> quadruples_second N M b"
    then obtain a c d where q: "q = (a, b, c, d)" "1 \<le> a" "a < b"
      "(c, d) \<in> pairs_above b M (N - a - b)"
      by (auto simp: quadruples_second_def)
    then have "(a, c, d) \<in> Sigma {1..b - 1} ?B" by (simp add: algebra_simps)
    then show "q \<in> ?f ` Sigma {1..b - 1} ?B" unfolding q(1) by (rule rev_image_eqI) simp
  next
    fix q assume "q \<in> ?f ` Sigma {1..b - 1} ?B"
    then obtain a c d where "q = (a, b, c, d)" "a \<in> {1..b - 1}" "(c, d) \<in> ?B a"
      by auto
    then show "q \<in> quadruples_second N M b"
      by (simp add: quadruples_second_def algebra_simps)
  qed
  then have "card (quadruples_second N M b) = card (Sigma {1..b - 1} ?B)"
    using inj by (simp add: card_image)
  then show ?thesis by simp
qed

lemma quadruples_by_second:
  "quadruples_with_sum N M = (\<Union>b\<in>{2..M - 2}. quadruples_second N M b)"
proof (intro equalityI subsetI)
  fix q assume "q \<in> quadruples_with_sum N M"
  then obtain a b c d where q: "q = (a, b, c, d)" "1 \<le> a" "a < b" "b < c" "c < d" "d \<le> M"
    "a + b + c + d = N"
    by (cases q) (auto simp: quadruples_with_sum_def)
  then have "b \<in> {2..M - 2}" "q \<in> quadruples_second N M b"
    by (auto simp: quadruples_second_def pairs_above_def)
  then show "q \<in> (\<Union>b\<in>{2..M - 2}. quadruples_second N M b)" by blast
next
  fix q assume "q \<in> (\<Union>b\<in>{2..M - 2}. quadruples_second N M b)"
  then show "q \<in> quadruples_with_sum N M"
    by (auto simp: quadruples_second_def pairs_above_def quadruples_with_sum_def)
qed

lemma card_quadruples_by_second:
  "card (quadruples_with_sum N M) = (\<Sum>b\<in>{2..M - 2}. card (quadruples_second N M b))"
  unfolding quadruples_by_second
proof (rule card_UN_disjoint)
  show "finite {2..M - 2}" by simp
  show "\<forall>b\<in>{2..M - 2}. finite (quadruples_second N M b)" by simp
  show "\<forall>b\<in>{2..M - 2}. \<forall>b'\<in>{2..M - 2}. b \<noteq> b' \<longrightarrow>
      quadruples_second N M b \<inter> quadruples_second N M b' = {}"
    by (auto simp: quadruples_second_def)
qed

text \<open>
  The invariant of the sweep before \<open>second = b\<close> is processed: the histogram holds the pairs
  above \<open>b + 1\<close>, the total the quadruples whose second component is above \<open>b\<close>.
\<close>

definition sweep_inv :: "int \<Rightarrow> int \<Rightarrow> int \<Rightarrow> int list \<times> int \<Rightarrow> bool" where
  "sweep_inv N M b st \<longleftrightarrow>
     length (fst st) = nat (2 * M + 1) \<and>
     (\<forall>j<nat (2 * M + 1). fst st ! j = int (card (pairs_above (b + 1) M (int j)))) \<and>
     snd st = (\<Sum>b'\<in>{b + 1..M - 2}. int (card (quadruples_second N M b')))"

lemma sweep_inv_initial: "sweep_inv N M (M - 2) (list_times 0 (2 * M + 1), 0)"
  by (simp add: sweep_inv_def list_times_def pairs_above_top)

lemma sweep_second_step:
  assumes inv: "sweep_inv N M b st" and b: "1 \<le> b" "b \<le> M - 2"
  shows "\<exists>st'. sweep_second N M b st = Some st' \<and> sweep_inv N M (b - 1) st'"
proof -
  obtain pc tot where st: "st = (pc, tot)" by (cases st)
  have len: "length pc = nat (2 * M + 1)"
    and hist: "\<And>j. j < nat (2 * M + 1) \<Longrightarrow> pc ! j = int (card (pairs_above (b + 1) M (int j)))"
    and tot: "tot = (\<Sum>b'\<in>{b + 1..M - 2}. int (card (quadruples_second N M b')))"
    using inv by (simp_all add: sweep_inv_def st)
  have M: "0 \<le> M" using b by simp
  let ?fs = "range_up (b + 1 + 1) (M + 1)"
  have fs: "distinct ?fs" "set ?fs = {b + 2..M}" by (auto simp: range_up_def)
  have "\<exists>pc'. for_loop ?fs (register_pair (b + 1)) pc = Some pc' \<and> length pc' = length pc \<and>
    (\<forall>j<length pc. pc' ! j = pc ! j + (if int j - (b + 1) \<in> set ?fs then 1 else 0))"
    using b len fs by (intro register_loop) auto
  then obtain pc' where pc': "for_loop ?fs (register_pair (b + 1)) pc = Some pc'"
    "length pc' = nat (2 * M + 1)"
    "\<And>j. j < nat (2 * M + 1) \<Longrightarrow> pc' ! j = pc ! j + (if int j - (b + 1) \<in> {b + 2..M} then 1 else 0)"
    unfolding len fs by blast
  have hist': "pc' ! j = int (card (pairs_above b M (int j)))" if "j < nat (2 * M + 1)" for j
    using pc'(3) [OF that] hist [OF that] by (simp add: card_pairs_above_step [of b])
  let ?g = "\<lambda>a. if 0 \<le> N - b - a \<and> N - b - a \<le> 2 * M then pc' ! nat (N - b - a) else 0"
  have query: "for_loop (range_up 1 b) (query_pair M (N - b) pc') tot =
      Some (tot + (\<Sum>a\<leftarrow>range_up 1 b. ?g a))"
    using M pc'(2) by (rule query_loop)
  have g: "?g a = int (card (pairs_above b M (N - b - a)))" for a
  proof (cases "0 \<le> N - b - a \<and> N - b - a \<le> 2 * M")
    case True
    then have "nat (N - b - a) < nat (2 * M + 1)" by simp
    from hist' [OF this] True show ?thesis by simp
  next
    case False
    have "pairs_above b M (N - b - a) = {}"
    proof (rule ccontr)
      assume "pairs_above b M (N - b - a) \<noteq> {}"
      from pairs_above_range [OF this] b False show False by linarith
    qed
    with False show ?thesis by auto
  qed
  have "(\<Sum>a\<leftarrow>range_up 1 b. ?g a) = (\<Sum>a\<in>{1..b - 1}. ?g a)"
    unfolding range_up_def by (simp add: sum_list_distinct_conv_sum_set)
  also have "\<dots> = int (card (quadruples_second N M b))"
    unfolding g card_quadruples_second by simp
  finally have sum: "(\<Sum>a\<leftarrow>range_up 1 b. ?g a) = int (card (quadruples_second N M b))" .
  have "{b - 1 + 1..M - 2} = insert b {b + 1..M - 2}" using b by auto
  then have tot': "tot + int (card (quadruples_second N M b)) =
      (\<Sum>b'\<in>{b - 1 + 1..M - 2}. int (card (quadruples_second N M b')))"
    by (simp add: tot)
  have run: "sweep_second N M b st = Some (pc', tot + int (card (quadruples_second N M b)))"
    unfolding sweep_second_def st using pc'(1) query sum by simp
  have "sweep_inv N M (b - 1) (pc', tot + int (card (quadruples_second N M b)))"
    unfolding sweep_inv_def using pc'(2) hist' tot' by simp
  with run show ?thesis by blast
qed

lemma sweep_loop:
  assumes "int k \<le> M - 3"
  shows "\<exists>st. for_loop (rev [M - 1 - int k..M - 2]) (sweep_second N M) (list_times 0 (2 * M + 1), 0) = Some st \<and>
    sweep_inv N M (M - 2 - int k) st"
  using assms
proof (induction k)
  case 0
  then show ?case using sweep_inv_initial [of N M] by simp
next
  case (Suc k)
  then obtain st1 where st1:
    "for_loop (rev [M - 1 - int k..M - 2]) (sweep_second N M) (list_times 0 (2 * M + 1), 0) = Some st1"
    "sweep_inv N M (M - 2 - int k) st1"
    by auto
  obtain st where st: "sweep_second N M (M - 2 - int k) st1 = Some st"
    "sweep_inv N M (M - 2 - int k - 1) st"
    using sweep_second_step [OF st1(2)] Suc.prems by auto
  have "[M - 1 - int (Suc k)..M - 2] = (M - 2 - int k) # [M - 1 - int k..M - 2]"
    using Suc.prems by (subst upto_rec1) (simp_all add: algebra_simps)
  then have "for_loop (rev [M - 1 - int (Suc k)..M - 2]) (sweep_second N M) (list_times 0 (2 * M + 1), 0) = Some st"
    using st1(1) st(1) by (simp add: for_loop_append)
  moreover have "M - 2 - int k - 1 = M - 2 - int (Suc k)" by simp
  ultimately show ?case using st(2) by auto
qed

lemma count_quadruples_pair_sum_card:
  assumes "10 \<le> N" "N \<le> 4 * M - 6"
  shows "count_quadruples_pair_sum N M sp pp pd = Some (int (card (quadruples_with_sum N M)))"
proof -
  have M: "4 \<le> M" using assms by simp
  define k where "k = nat (M - 3)"
  have k: "int k \<le> M - 3" "M - 1 - int k = 2" "M - 2 - int k = 1" using M by (simp_all add: k_def)
  obtain st where st: "for_loop (rev [2..M - 2]) (sweep_second N M) (list_times 0 (2 * M + 1), 0) = Some st"
    "sweep_inv N M 1 st"
    using sweep_loop [OF k(1), of N] unfolding k by blast
  obtain pc tot where pt: "st = (pc, tot)" by (cases st)
  have "tot = (\<Sum>b\<in>{2..M - 2}. int (card (quadruples_second N M b)))"
    using st(2) by (simp add: sweep_inv_def pt)
  then have tot: "tot = int (card (quadruples_with_sum N M))"
    by (simp add: card_quadruples_by_second)
  have "count_quadruples_pair_sum N M False None None = Some tot"
    using assms st(1) by (simp add: count_quadruples_pair_sum_def range_down_def pt)
  then show ?thesis
    unfolding tot by (simp only: count_quadruples_pair_sum_progress [of N M sp pp pd])
qed

section \<open>Both counters return the number of quadruples\<close>

lemma quadruples_with_sum_empty:
  "N < 10 \<or> N > 4 * M - 6 \<Longrightarrow> quadruples_with_sum N M = {}"
  by (auto simp: quadruples_with_sum_def)

lemma card_quadruples_with_sum_cnt:
  assumes "0 \<le> M"
  shows "card (quadruples_with_sum N M) = cnt (nat M) 4 N"
proof -
  have "card {q. is_quadruple (int (nat M)) q \<and> quad_sum q = N} = cnt (nat M) 4 N"
    unfolding cnt_def by (rule card_quadruples)
  with assms show ?thesis by (simp add: quadruples_with_sum_def)
qed

lemma count_quadruples_card:
  "count_quadruples N M sp pp pd = Some (int (card (quadruples_with_sum N M)))"
proof (cases "N < 10 \<or> N > 4 * M - 6")
  case True
  then show ?thesis
    by (simp add: quadruples_with_sum_empty count_quadruples_def)
next
  case False
  then have "10 \<le> N" "N \<le> 4 * M - 6" "0 \<le> M" by simp_all
  then show ?thesis
    by (simp add: count_quadruples_cnt card_quadruples_with_sum_cnt)
qed

lemma count_quadruples_pair_sum_all:
  "count_quadruples_pair_sum N M sp pp pd = Some (int (card (quadruples_with_sum N M)))"
proof (cases "N < 10 \<or> N > 4 * M - 6")
  case True
  then show ?thesis
    by (simp add: quadruples_with_sum_empty count_quadruples_pair_sum_def)
next
  case False
  then have "10 \<le> N" "N \<le> 4 * M - 6" by simp_all
  then show ?thesis
    by (rule count_quadruples_pair_sum_card)
qed

text \<open>
  C2. For \<open>target_sum \<ge> 0\<close> and \<open>upper_bound \<ge> 0\<close>, \<open>count_quadruples\<close> returns a
  non-negative integer, the number of quadruples \<open>1 \<le> a < b < c < d \<le> upper_bound\<close> with
  \<open>a + b + c + d = target_sum\<close>.
\<close>

theorem count_quadruples_correct:
  "0 \<le> N \<Longrightarrow> 0 \<le> M \<Longrightarrow>
     \<exists>r. count_quadruples N M sp pp pd = Some r \<and> 0 \<le> r \<and>
         r = int (card (quadruples_with_sum N M))"
  by (simp add: count_quadruples_card)

theorem count_quadruples_correct_witness:
  "(0::int) \<le> 12 \<and> (0::int) \<le> 6 \<and>
   (\<exists>r. count_quadruples 12 6 True None None = Some r \<and> 0 \<le> r \<and>
        r = int (card (quadruples_with_sum 12 6)))"
  using count_quadruples_correct [of 12 6 True None None] by simp

text \<open>
  C3. For \<open>target_sum \<ge> 0\<close> and \<open>upper_bound \<ge> 0\<close>, \<open>count_quadruples_pair_sum\<close> returns a
  non-negative integer, the number of quadruples \<open>1 \<le> a < b < c < d \<le> upper_bound\<close> with
  \<open>a + b + c + d = target_sum\<close>.
\<close>

theorem count_quadruples_pair_sum_correct:
  "0 \<le> N \<Longrightarrow> 0 \<le> M \<Longrightarrow>
     \<exists>r. count_quadruples_pair_sum N M sp pp pd = Some r \<and> 0 \<le> r \<and>
         r = int (card (quadruples_with_sum N M))"
  by (simp add: count_quadruples_pair_sum_all)

theorem count_quadruples_pair_sum_correct_witness:
  "(0::int) \<le> 12 \<and> (0::int) \<le> 6 \<and>
   (\<exists>r. count_quadruples_pair_sum 12 6 True None None = Some r \<and> 0 \<le> r \<and>
        r = int (card (quadruples_with_sum 12 6)))"
  using count_quadruples_pair_sum_correct [of 12 6 True None None] by simp

section \<open>Reflection\<close>

fun reflect :: "int \<Rightarrow> int \<times> int \<times> int \<times> int \<Rightarrow> int \<times> int \<times> int \<times> int" where
  "reflect M (a, b, c, d) = (M + 1 - d, M + 1 - c, M + 1 - b, M + 1 - a)"

lemma reflect_reflect: "reflect M (reflect M q) = q"
  by (cases q) simp

lemma reflect_quadruple:
  "q \<in> quadruples_with_sum N M \<Longrightarrow> reflect M q \<in> quadruples_with_sum (4 * M + 4 - N) M"
  by (cases q) (auto simp: quadruples_with_sum_def)

lemma reflect_image:
  "reflect M ` quadruples_with_sum N M = quadruples_with_sum (4 * M + 4 - N) M"
proof (intro equalityI subsetI)
  fix q assume "q \<in> reflect M ` quadruples_with_sum N M"
  then show "q \<in> quadruples_with_sum (4 * M + 4 - N) M"
    using reflect_quadruple by blast
next
  fix q assume "q \<in> quadruples_with_sum (4 * M + 4 - N) M"
  then have "reflect M q \<in> quadruples_with_sum (4 * M + 4 - (4 * M + 4 - N)) M"
    by (rule reflect_quadruple)
  then have "reflect M q \<in> quadruples_with_sum N M" by simp
  then have "reflect M (reflect M q) \<in> reflect M ` quadruples_with_sum N M"
    by (rule imageI)
  then show "q \<in> reflect M ` quadruples_with_sum N M"
    by (simp only: reflect_reflect)
qed

lemma card_reflect:
  "card (quadruples_with_sum (4 * M + 4 - N) M) = card (quadruples_with_sum N M)"
proof -
  have "inj_on (reflect M) (quadruples_with_sum N M)"
    by (rule inj_on_inverseI [where g = "reflect M"]) (rule reflect_reflect)
  then have "card (reflect M ` quadruples_with_sum N M) = card (quadruples_with_sum N M)"
    by (rule card_image)
  then show ?thesis by (simp only: reflect_image)
qed

lemma count_quadruples_reflect:
  "count_quadruples (4 * M + 4 - N) M sp pp pd = count_quadruples N M sp pp pd"
  by (simp only: count_quadruples_card card_reflect)

text \<open>
  C8, as the code behaves. The reflection \<open>N \<mapsto> 4 * M + 4 - N\<close> is a symmetry of
  \<open>count_quadruples\<close>, for all integers \<open>N\<close> and \<open>M\<close>.
\<close>

theorem reflection_symmetry:
  "count_quadruples N M sp pp pd = count_quadruples (4 * M + 4 - N) M sp pp pd"
  by (simp only: count_quadruples_reflect)

text \<open>C8 as stated fails: no \<open>N\<close> and \<open>M\<close> separate the two calls.\<close>

theorem reflection_symmetry_counterexample:
  "\<not> (\<exists>N M. count_quadruples N M True None None \<noteq>
       count_quadruples (4 * M + 4 - N) M True None None)"
  by (simp only: count_quadruples_reflect) simp

section \<open>Sums modulo n: the cyclic shift\<close>

text \<open>The cyclic shift of \<open>{1, \<dots>, n}\<close>: \<open>x \<mapsto> x + 1\<close>, and \<open>n \<mapsto> 1\<close>.\<close>

definition shift :: "nat \<Rightarrow> int \<Rightarrow> int" where
  "shift n x = x mod int n + 1"

text \<open>The \<open>k\<close>-element subsets of \<open>{1, \<dots>, n}\<close> whose sum has residue \<open>r\<close> modulo \<open>n\<close>.\<close>

definition residue_class :: "nat \<Rightarrow> nat \<Rightarrow> int \<Rightarrow> int set set" where
  "residue_class n k r = {S \<in> subsets n k. \<Sum>S mod int n = r}"

lemma shift_range: "0 < n \<Longrightarrow> shift n x \<in> {1..int n}"
  by (simp add: shift_def add1_zle_eq)

lemma shift_inj: "inj_on (shift n) {1..int n}"
proof (rule inj_onI)
  fix x y assume x: "x \<in> {1..int n}" and y: "y \<in> {1..int n}" and eq: "shift n x = shift n y"
  have *: "z mod int n = (if z = int n then 0 else z)" if "z \<in> {1..int n}" for z
    using that by auto
  from eq have "x mod int n = y mod int n" by (simp add: shift_def)
  then show "x = y" using x y by (simp add: * split: if_splits)
qed

lemma shift_mod: "shift n x mod int n = (x + 1) mod int n"
  by (simp add: shift_def mod_simps)

lemma shift_subsets:
  assumes "0 < n" "S \<in> subsets n k"
  shows "shift n ` S \<in> subsets n k"
proof -
  have sub: "S \<subseteq> {1..int n}" and card: "card S = k" using assms by (simp_all add: subsets_def)
  have "inj_on (shift n) S" using shift_inj sub by (rule inj_on_subset)
  then have "card (shift n ` S) = k" using card by (simp add: card_image)
  moreover have "shift n ` S \<subseteq> {1..int n}" using shift_range [OF assms(1)] by blast
  ultimately show ?thesis by (simp add: subsets_def)
qed

lemma shift_sum:
  assumes "S \<in> subsets n k"
  shows "\<Sum>(shift n ` S) mod int n = (\<Sum>S + int k) mod int n"
proof -
  have sub: "S \<subseteq> {1..int n}" and card: "card S = k" using assms by (simp_all add: subsets_def)
  have inj: "inj_on (shift n) S" using shift_inj sub by (rule inj_on_subset)
  have "\<Sum>(shift n ` S) mod int n = (\<Sum>x\<in>S. shift n x) mod int n"
    using inj by (simp add: sum.reindex)
  also have "\<dots> = (\<Sum>x\<in>S. shift n x mod int n) mod int n"
    by (simp add: mod_sum_eq)
  also have "\<dots> = (\<Sum>x\<in>S. (x + 1) mod int n) mod int n"
    by (simp add: shift_mod)
  also have "\<dots> = (\<Sum>x\<in>S. x + 1) mod int n"
    by (simp add: mod_sum_eq)
  also have "(\<Sum>x\<in>S. x + 1) = \<Sum>S + int k"
    by (simp add: sum.distrib card)
  finally show ?thesis .
qed

lemma finite_residue_class [simp]: "finite (residue_class n k r)"
  by (simp add: residue_class_def)

lemma residue_class_shift_le:
  assumes "0 < n"
  shows "card (residue_class n k r) \<le> card (residue_class n k ((r + int k) mod int n))"
proof (rule card_inj_on_le)
  show "inj_on (image (shift n)) (residue_class n k r)"
  proof (rule inj_on_subset)
    show "inj_on (image (shift n)) (Pow {1..int n})"
      using shift_inj by (rule inj_on_image_Pow)
    show "residue_class n k r \<subseteq> Pow {1..int n}"
      by (auto simp: residue_class_def subsets_def)
  qed
  show "image (shift n) ` residue_class n k r \<subseteq> residue_class n k ((r + int k) mod int n)"
  proof
    fix T assume "T \<in> image (shift n) ` residue_class n k r"
    then obtain S where S: "S \<in> subsets n k" "\<Sum>S mod int n = r" and T: "T = shift n ` S"
      by (auto simp: residue_class_def)
    have "\<Sum>T mod int n = (\<Sum>S mod int n + int k) mod int n"
      unfolding T shift_sum [OF S(1)] by (simp add: mod_simps)
    then show "T \<in> residue_class n k ((r + int k) mod int n)"
      using shift_subsets [OF assms S(1)] S(2) T by (simp add: residue_class_def)
  qed
  show "finite (residue_class n k ((r + int k) mod int n))" by simp
qed

lemma residue_class_orbit_le:
  assumes "0 < n"
  shows "card (residue_class n k r) \<le> card (residue_class n k ((r + int k * int j) mod int n))"
proof (induction j)
  case 0
  have "residue_class n k r \<subseteq> residue_class n k (r mod int n)"
    by (auto simp: residue_class_def)
  then show ?case by (simp add: card_mono)
next
  case (Suc j)
  have "((r + int k * int j) mod int n + int k) mod int n = (r + int k * int (Suc j)) mod int n"
    by (simp add: mod_simps algebra_simps)
  with residue_class_shift_le [OF assms, of k "(r + int k * int j) mod int n"] Suc
  show ?case by simp
qed

lemma residue_class_orbit:
  assumes "0 < n"
  shows "card (residue_class n k ((int k * int j) mod int n)) = card (residue_class n k 0)"
proof (rule antisym)
  let ?t = "(int k * int j) mod int n"
  have "(?t + int k * int (j * (n - 1))) mod int n = (int k * int j * int n) mod int n"
  proof -
    have "int k * int j + int k * int (j * (n - 1)) = int k * int j * int n"
      using assms by (simp add: algebra_simps of_nat_diff)
    then show ?thesis by (simp add: mod_simps)
  qed
  then have "(?t + int k * int (j * (n - 1))) mod int n = 0" by simp
  with residue_class_orbit_le [OF assms, of k ?t "j * (n - 1)"]
  show "card (residue_class n k ?t) \<le> card (residue_class n k 0)" by simp
  show "card (residue_class n k 0) \<le> card (residue_class n k ?t)"
    using residue_class_orbit_le [OF assms, of k 0 j] by simp
qed

lemma orbit_reach:
  assumes n: "0 < n" and r: "0 \<le> r" "r < int n" "int (gcd 4 n) dvd r"
  shows "\<exists>j. (4 * int j) mod int n = r"
proof -
  obtain u v where uv: "u * 4 + v * int n = gcd 4 (int n)"
    using bezout_int [of 4 "int n"] by blast
  have g: "gcd 4 (int n) = int (gcd 4 n)"
    using gcd_int_int_eq [of 4 n] by simp
  obtain r' where r': "r = int (gcd 4 n) * r'" using r(3) by (elim dvdE)
  have "4 * (u * r') = (u * 4 + v * int n) * r' - int n * (v * r')"
    by (simp add: algebra_simps)
  also have "\<dots> = r - int n * (v * r')"
    by (simp add: uv g r')
  also have "\<dots> = r + int n * (- (v * r'))"
    by simp
  finally have "(4 * (u * r')) mod int n = r mod int n"
    by (simp only: mod_mult_self2)
  then have *: "(4 * (u * r')) mod int n = r" using r by simp
  define j where "j = nat ((u * r') mod int n)"
  have "int j = (u * r') mod int n" using n by (simp add: j_def)
  then have "(4 * int j) mod int n = (4 * (u * r')) mod int n"
    by (simp add: mod_simps)
  with * show ?thesis by auto
qed

lemma residue_class_gcd:
  assumes "0 < n" "0 \<le> r" "r < int n" "int (gcd 4 n) dvd r"
  shows "card (residue_class n 4 r) = card (residue_class n 4 0)"
proof -
  obtain j where "(4 * int j) mod int n = r"
    using orbit_reach [OF assms] by blast
  with residue_class_orbit [OF assms(1), of 4 j] show ?thesis by simp
qed

lemma card_multiples:
  assumes "0 < g" "g dvd n"
  shows "card {r. 0 \<le> r \<and> r < int n \<and> int g dvd r} = n div g"
proof -
  have "{r. 0 \<le> r \<and> r < int n \<and> int g dvd r} = (\<lambda>i. int g * int i) ` {..<n div g}"
  proof (intro equalityI subsetI)
    fix r assume "r \<in> {r. 0 \<le> r \<and> r < int n \<and> int g dvd r}"
    then have r: "0 \<le> r" "r < int n" "int g dvd r" by simp_all
    then obtain r' where r': "r = int g * r'" by (elim dvdE)
    have "0 \<le> r'" using r(1) assms(1) unfolding r' by (simp add: zero_le_mult_iff)
    moreover have "int g * r' < int g * int (n div g)" using r(2) assms(2) unfolding r'
      by (metis dvd_mult_div_cancel of_nat_mult)
    then have "r' < int (n div g)" using assms(1) by simp
    ultimately have "nat r' \<in> {..<n div g}" "r = int g * int (nat r')"
      using r' by simp_all
    then show "r \<in> (\<lambda>i. int g * int i) ` {..<n div g}" by blast
  next
    fix r assume "r \<in> (\<lambda>i. int g * int i) ` {..<n div g}"
    then obtain i where i: "i < n div g" "r = int g * int i" by auto
    have "g * i < g * (n div g)" using i(1) assms(1) by simp
    then have "g * i < n" using assms(2) by simp
    then have "r < int n" unfolding i(2) by (metis of_nat_less_iff of_nat_mult)
    then show "r \<in> {r. 0 \<le> r \<and> r < int n \<and> int g dvd r}" using i(2) by simp
  qed
  moreover have "inj_on (\<lambda>i. int g * int i) {..<n div g}"
    using assms(1) by (auto intro: inj_onI)
  ultimately show ?thesis by (simp add: card_image)
qed

text \<open>
  The sums divisible by \<open>gcd 4 n\<close> fall into \<open>n div gcd 4 n\<close> residue classes modulo \<open>n\<close>, all of
  the size of the class of 0.
\<close>

lemma card_gcd_divisible:
  assumes n: "0 < n"
  shows "card {S \<in> subsets n 4. int (gcd 4 n) dvd \<Sum>S} =
    (n div gcd 4 n) * card (residue_class n 4 0)"
proof -
  let ?g = "gcd 4 n"
  let ?R = "{r. 0 \<le> r \<and> r < int n \<and> int ?g dvd r}"
  have g: "0 < ?g" "?g dvd n" using n by simp_all
  have gn: "int ?g dvd int n" using g(2) by (simp only: of_nat_dvd_iff)
  have "{S \<in> subsets n 4. int ?g dvd \<Sum>S} = (\<Union>r\<in>?R. residue_class n 4 r)"
  proof (intro equalityI subsetI)
    fix S assume "S \<in> {S \<in> subsets n 4. int ?g dvd \<Sum>S}"
    then have S: "S \<in> subsets n 4" "int ?g dvd \<Sum>S" by simp_all
    have "\<Sum>S mod int n \<in> ?R" using n S(2) gn by (simp add: dvd_mod_iff)
    moreover have "S \<in> residue_class n 4 (\<Sum>S mod int n)"
      using S(1) by (simp add: residue_class_def)
    ultimately show "S \<in> (\<Union>r\<in>?R. residue_class n 4 r)" by blast
  next
    fix S assume "S \<in> (\<Union>r\<in>?R. residue_class n 4 r)"
    then obtain r where r: "int ?g dvd r" and S: "S \<in> subsets n 4" "\<Sum>S mod int n = r"
      by (auto simp: residue_class_def)
    from r S(2) have "int ?g dvd \<Sum>S mod int n" by simp
    with gn have "int ?g dvd \<Sum>S" by (simp only: dvd_mod_iff)
    with S(1) show "S \<in> {S \<in> subsets n 4. int ?g dvd \<Sum>S}" by simp
  qed
  moreover have "card (\<Union>r\<in>?R. residue_class n 4 r) = (\<Sum>r\<in>?R. card (residue_class n 4 r))"
  proof (rule card_UN_disjoint)
    have "?R \<subseteq> {0..int n}"
    proof
      fix r assume "r \<in> ?R"
      then have "0 \<le> r \<and> r < int n" by blast
      then show "r \<in> {0..int n}" by simp
    qed
    then show "finite ?R" by (rule finite_subset) simp
    show "\<forall>r\<in>?R. finite (residue_class n 4 r)" by simp
    show "\<forall>r\<in>?R. \<forall>r'\<in>?R. r \<noteq> r' \<longrightarrow> residue_class n 4 r \<inter> residue_class n 4 r' = {}"
      by (auto simp: residue_class_def)
  qed
  moreover have "(\<Sum>r\<in>?R. card (residue_class n 4 r)) = (\<Sum>r\<in>?R. card (residue_class n 4 0))"
  proof (rule sum.cong)
    fix r assume "r \<in> ?R"
    then have "0 \<le> r" "r < int n" "int ?g dvd r" by blast+
    then show "card (residue_class n 4 r) = card (residue_class n 4 0)"
      by (rule residue_class_gcd [OF n])
  qed (rule refl)
  ultimately show ?thesis
    by (simp add: card_multiples [OF g])
qed

lemma residue_class_0: "residue_class n k 0 = {S \<in> subsets n k. int n dvd \<Sum>S}"
  by (auto simp: residue_class_def)

section \<open>Sums modulo 2 and 4: character sums\<close>

text \<open>The sum of \<open>w ^ (\<Sum>S)\<close> over the \<open>k\<close>-element subsets \<open>S\<close> of \<open>{1, \<dots>, v}\<close>.\<close>

definition chsum :: "complex \<Rightarrow> nat \<Rightarrow> nat \<Rightarrow> complex" where
  "chsum w v k = wsum v k (\<lambda>s. w ^ nat s)"

lemma wsum_add: "wsum v k (\<lambda>s. f s + g s) = wsum v k f + wsum v k g"
  by (simp add: wsum_def sum.distrib)

lemma wsum_mult: "wsum v k (\<lambda>s. c * f s) = c * wsum v k f" for c :: complex
  by (simp add: wsum_def sum_distrib_left)

lemma wsum_const: "wsum v k (\<lambda>s. 1) = (of_nat (v choose k) :: complex)"
  by (simp add: wsum_def card_subsets)

lemma wsum_indicator:
  "wsum v k (\<lambda>s. if P s then 1 else 0) = (of_nat (card {S \<in> subsets v k. P (\<Sum>S)}) :: complex)"
proof -
  have "of_nat (wsum v k (\<lambda>s. if P s then 1 else 0 :: nat)) =
      wsum v k (\<lambda>s. if P s then 1 else 0 :: complex)"
    unfolding wsum_def of_nat_sum by (rule sum.cong) simp_all
  then show ?thesis by (simp add: card_subsets_filter)
qed

lemma chsum_0 [simp]: "chsum w v 0 = 1"
  by (simp add: chsum_def)

lemma chsum_0_Suc [simp]: "chsum w 0 (Suc k) = 0"
  by (simp add: chsum_def)

lemma chsum_Suc: "chsum w (Suc v) (Suc k) = chsum w v (Suc k) + w ^ Suc v * chsum w v k"
proof -
  have "wsum v k (\<lambda>s. w ^ nat (s + (int v + 1))) = wsum v k (\<lambda>s. w ^ Suc v * w ^ nat s)"
  proof (rule wsum_cong)
    fix s :: int assume "0 \<le> s"
    then have "nat (s + (int v + 1)) = Suc v + nat s" by simp
    then show "w ^ nat (s + (int v + 1)) = w ^ Suc v * w ^ nat s"
      by (simp only: power_add)
  qed
  then show ?thesis
    by (simp add: chsum_def wsum_Suc wsum_mult)
qed

lemma chsum_m1_step:
  assumes "even v"
  shows "chsum (- 1) (Suc (Suc v)) (Suc (Suc k)) = chsum (- 1) v (Suc (Suc k)) - chsum (- 1) v k"
  using assms by (simp add: chsum_Suc)

lemma chsum_m1_2: "chsum (- 1) (2 * m) (Suc (Suc 0)) = - of_nat m"
proof (induction m)
  case 0
  then show ?case by simp
next
  case (Suc m)
  have "2 * Suc m = Suc (Suc (2 * m))" by simp
  with Suc show ?case by (simp add: chsum_m1_step)
qed

lemma chsum_m1_4: "chsum (- 1) (2 * m) (Suc (Suc (Suc (Suc 0)))) = of_nat (m choose 2)"
proof (induction m)
  case 0
  then show ?case by simp
next
  case (Suc m)
  have "2 * Suc m = Suc (Suc (2 * m))" by simp
  moreover have "Suc m choose 2 = (m choose 2) + m"
    by (simp add: numeral_2_eq_2)
  ultimately show ?case using Suc by (simp add: chsum_m1_step chsum_m1_2)
qed

lemma chsum_i_step:
  assumes w: "w * w = - 1" and v: "w ^ v = 1"
  shows "chsum w (Suc (Suc (Suc (Suc v)))) (Suc (Suc (Suc (Suc 0)))) =
    chsum w v (Suc (Suc (Suc (Suc 0)))) - 1"
proof -
  have w2: "w * (w * x) = - x" for x
    using w by (simp flip: mult.assoc)
  show ?thesis
    by (simp add: chsum_Suc v w w2 algebra_simps)
qed

lemma chsum_i_4:
  assumes w: "w * w = - 1"
  shows "w ^ (4 * m) = 1 \<and> chsum w (4 * m) (Suc (Suc (Suc (Suc 0)))) = - of_nat m"
proof (induction m)
  case 0
  then show ?case by simp
next
  case (Suc m)
  have eq: "4 * Suc m = Suc (Suc (Suc (Suc (4 * m))))" by simp
  have "w ^ (4 * Suc m) = 1" using Suc w unfolding eq by (simp add: algebra_simps)
  moreover have "chsum w (4 * Suc m) (Suc (Suc (Suc (Suc 0)))) = - of_nat (Suc m)"
    unfolding eq using Suc by (simp add: chsum_i_step [OF w])
  ultimately show ?case by simp
qed

lemma gcd_4_cases:
  "n mod 4 = 0 \<Longrightarrow> gcd 4 n = 4"
  "n mod 4 = 1 \<Longrightarrow> gcd 4 n = 1"
  "n mod 4 = 2 \<Longrightarrow> gcd 4 n = 2"
  "n mod 4 = 3 \<Longrightarrow> gcd 4 n = 1"
  for n :: nat
proof -
  have red: "gcd 4 n = gcd 4 (n mod 4)"
    by (metis gcd.commute gcd_red_nat)
  have "gcd (4::nat) 2 = 2" by (simp add: gcd_nat.simps [of 4 2])
  moreover have "gcd (4::nat) 3 = 1" 
    by (simp add: gcd_nat.simps [of 4 3] gcd_nat.simps [of 3 1])
  ultimately show "n mod 4 = 0 \<Longrightarrow> gcd 4 n = 4" "n mod 4 = 1 \<Longrightarrow> gcd 4 n = 1"
    "n mod 4 = 2 \<Longrightarrow> gcd 4 n = 2" "n mod 4 = 3 \<Longrightarrow> gcd 4 n = 1"
    by (simp_all add: red)
qed

lemma parity_indicator: "(1 + (- 1) ^ j :: complex) = (if even j then 2 else 0)"
  by simp

lemma four_indicator:
  "(1 + (- 1) ^ j + \<i> ^ j + (- \<i>) ^ j :: complex) = (if 4 dvd j then 4 else 0)"
proof -
  define q r where "q = j div 4" and "r = j mod 4"
  have j: "j = 4 * q + r" and r: "r < 4" by (simp_all add: q_def r_def)
  have p: "w ^ j = w ^ r" if "w ^ 4 = 1" for w :: complex
    unfolding j by (simp add: power_add power_mult that)
  have i4: "\<i> ^ 4 = 1" "(- \<i>) ^ 4 = 1" "(- 1 :: complex) ^ 4 = 1"
    by (simp_all add: numeral_eq_Suc)
  have dvd: "4 dvd j \<longleftrightarrow> r = 0" by (simp add: r_def dvd_eq_mod_eq_0)
  from r consider "r = 0" | "r = 1" | "r = 2" | "r = 3" by linarith
  then show ?thesis
    unfolding p [OF i4(1)] p [OF i4(2)] p [OF i4(3)] dvd
    by cases (simp_all add: numeral_eq_Suc)
qed

lemma even_count:
  "2 * of_nat (card {S \<in> subsets v k. even (\<Sum>S)}) = of_nat (v choose k) + chsum (- 1) v k"
proof -
  have "wsum v k (\<lambda>s. 2 * (if even s then 1 else 0)) = wsum v k (\<lambda>s. 1 + (- 1) ^ nat s :: complex)"
  proof (rule wsum_cong)
    fix s :: int assume "0 \<le> s"
    then have "even (nat s) \<longleftrightarrow> even s" by (simp add: even_nat_iff)
    then show "2 * (if even s then 1 else 0) = (1 + (- 1) ^ nat s :: complex)"
      by (simp only: parity_indicator) simp
  qed
  then show ?thesis
    by (simp only: wsum_mult wsum_indicator wsum_add wsum_const chsum_def)
qed

lemma four_count:
  "4 * of_nat (card {S \<in> subsets v k. 4 dvd \<Sum>S}) =
     of_nat (v choose k) + chsum (- 1) v k + chsum \<i> v k + chsum (- \<i>) v k"
proof -
  have "wsum v k (\<lambda>s. 4 * (if 4 dvd s then 1 else 0)) =
      wsum v k (\<lambda>s. 1 + (- 1) ^ nat s + \<i> ^ nat s + (- \<i>) ^ nat s :: complex)"
  proof (rule wsum_cong)
    fix s :: int assume "0 \<le> s"
    then have "4 dvd nat s \<longleftrightarrow> 4 dvd s" 
      by (metis int_dvd_int_iff nat_0_le of_nat_numeral)
    then show "4 * (if 4 dvd s then 1 else 0) = (1 + (- 1) ^ nat s + \<i> ^ nat s + (- \<i>) ^ nat s :: complex)"
      by (simp only: four_indicator) simp
  qed
  then show ?thesis
    by (simp only: wsum_mult wsum_indicator wsum_add wsum_const chsum_def)
qed

section \<open>Subsets with a sum divisible by n\<close>

text \<open>The number of four-element subsets of \<open>{1, \<dots>, n}\<close> whose sum is divisible by \<open>n\<close>.\<close>

definition divisible_count :: "nat \<Rightarrow> nat" where
  "divisible_count n = card {S \<in> subsets n 4. int n dvd \<Sum>S}"

lemma divisible_count_class: "divisible_count n = card (residue_class n 4 0)"
  by (simp add: divisible_count_def residue_class_0)

lemma four_Suc: "(4::nat) = Suc (Suc (Suc (Suc 0)))"
  by simp

lemma chsum_m1_4_eq:
  "v = 2 * m \<Longrightarrow> k = Suc (Suc (Suc (Suc 0))) \<Longrightarrow> chsum (- 1) v k = of_nat (m choose 2)"
  by (simp only: chsum_m1_4)

lemma chsum_i_4_eq:
  "w * w = - 1 \<Longrightarrow> v = 4 * m \<Longrightarrow> k = Suc (Suc (Suc (Suc 0))) \<Longrightarrow> chsum w v k = - of_nat m"
  by (simp only: chsum_i_4)

lemma divisible_count_odd:
  assumes "odd n"
  shows "n * divisible_count n = n choose 4"
proof -
  have n: "0 < n" using assms by (cases n) simp_all
  have "n mod 4 = 1 \<or> n mod 4 = 3" using assms by presburger
  then have "gcd 4 n = 1" using gcd_4_cases(2,4) by blast
  with card_gcd_divisible [OF n] show ?thesis
    by (simp add: divisible_count_class card_subsets flip: subsets_def)
qed

lemma divisible_count_2:
  assumes "n mod 4 = 2"
  shows "n * divisible_count n = (n choose 4) + (n div 2 choose 2)"
proof -
  define m where "m = n div 2"
  have n: "0 < n" "n = 2 * m" using assms unfolding m_def by presburger+
  have "gcd 4 n = 2" using assms by (rule gcd_4_cases(3))
  with card_gcd_divisible [OF n(1)]
  have "card {S \<in> subsets n 4. even (\<Sum>S)} = m * divisible_count n"
    by (simp add: divisible_count_class m_def)
  with even_count [of n 4]
  have "(2 * of_nat (m * divisible_count n) :: complex) = of_nat (n choose 4) + chsum (- 1) n 4"
    by simp
  also have "chsum (- 1) n 4 = of_nat (m choose 2)"
    using n(2) four_Suc by (rule chsum_m1_4_eq)
  finally have "(of_nat (2 * (m * divisible_count n)) :: complex) = of_nat ((n choose 4) + (m choose 2))"
    by simp
  then have "2 * (m * divisible_count n) = (n choose 4) + (m choose 2)"
    by (simp only: of_nat_eq_iff)
  moreover have "n * divisible_count n = 2 * (m * divisible_count n)"
    by (subst n(2)) simp
  ultimately show ?thesis unfolding m_def [symmetric] by linarith
qed

lemma divisible_count_0:
  assumes "0 < n" "n mod 4 = 0"
  shows "n * divisible_count n + n div 2 = (n choose 4) + (n div 2 choose 2)"
proof -
  define m where "m = n div 4"
  have n: "n = 4 * m" "n = 2 * (2 * m)" "n div 2 = 2 * m" using assms unfolding m_def by presburger+
  have "gcd 4 n = 4" using assms(2) by (rule gcd_4_cases(1))
  with card_gcd_divisible [OF assms(1)]
  have "card {S \<in> subsets n 4. 4 dvd \<Sum>S} = m * divisible_count n"
    by (simp add: divisible_count_class m_def)
  with four_count [of n 4]
  have "(4 * of_nat (m * divisible_count n) :: complex) =
      of_nat (n choose 4) + chsum (- 1) n 4 + chsum \<i> n 4 + chsum (- \<i>) n 4"
    by simp
  also have "chsum (- 1) n 4 = of_nat (2 * m choose 2)"
    using n(2) four_Suc by (rule chsum_m1_4_eq)
  also have "chsum \<i> n 4 = - of_nat m"
    using _ n(1) four_Suc by (rule chsum_i_4_eq) simp
  also have "chsum (- \<i>) n 4 = - of_nat m"
    using _ n(1) four_Suc by (rule chsum_i_4_eq) simp
  finally have "(of_nat (4 * (m * divisible_count n) + 2 * m) :: complex) =
      of_nat ((n choose 4) + (2 * m choose 2))"
    by (simp add: algebra_simps)
  then have "4 * (m * divisible_count n) + 2 * m = (n choose 4) + (2 * m choose 2)"
    by (simp only: of_nat_eq_iff)
  moreover have "n * divisible_count n = 4 * (m * divisible_count n)"
    by (subst n(1)) simp
  ultimately show ?thesis unfolding n(3) by linarith
qed

section \<open>The closed formula\<close>

lemma choose_4_times: "4 * (n choose 4) = n * ((n - 1) choose 3)"
  using times_binomial_minus1_eq [of 4 n] by simp

lemma two_choose_2: "2 * int (m choose 2) = int m * (int m - 1)"
proof -
  have "2 * (m choose 2) = m * (m - 1)"
    using times_binomial_minus1_eq [of 2 m] by simp
  then have "2 * int (m choose 2) = int m * int (m - 1)"
    by (metis of_nat_mult of_nat_numeral)
  then show ?thesis by (cases m) (simp_all add: algebra_simps)
qed

text \<open>The base term and the three adjusted terms of the formula, in terms of the count.\<close>

lemma formula_terms:
  assumes n: "0 < n"
  defines "B \<equiv> int ((n - 1) choose 3)"
  shows "int (n choose 4) * 4 = int n * B"
    and "odd n \<Longrightarrow> B = 4 * int (divisible_count n)"
    and "n mod 4 = 2 \<Longrightarrow> B * 2 + int n - 2 = 8 * int (divisible_count n)"
    and "n mod 4 = 0 \<Longrightarrow> B * 2 + int n - 6 = 8 * int (divisible_count n)"
proof -
  let ?C = "int (n choose 4)" and ?c = "int (divisible_count n)" and ?N = "int n"
  have N: "0 < ?N" using n by simp
  have "int (4 * (n choose 4)) = int (n * ((n - 1) choose 3))"
    using choose_4_times [of n] by simp
  then show CB: "?C * 4 = ?N * B" by (simp add: B_def)
  {
    assume "odd n"
    then have e: "?N * ?c = ?C"
      using divisible_count_odd [of n] by (metis of_nat_mult)
    have "?N * (4 * ?c) = 4 * (?N * ?c)" by simp
    also have "\<dots> = ?C * 4" by (simp only: e mult.commute)
    also have "\<dots> = ?N * B" by (rule CB)
    finally show "B = 4 * ?c" using N by simp
  }
  {
    assume n2: "n mod 4 = 2"
    define m where "m = n div 2"
    have nm: "?N = 2 * int m" using n2 unfolding m_def by presburger
    have "int (n * divisible_count n) = int ((n choose 4) + (m choose 2))"
      unfolding m_def using divisible_count_2 [OF n2] by simp
    then have e: "?N * ?c = ?C + int (m choose 2)"
      by (simp only: of_nat_mult of_nat_add)
    have "8 * (?N * ?c) = 2 * (?C * 4) + 4 * (2 * int (m choose 2))"
      unfolding e by simp
    also have "\<dots> = 2 * (?N * B) + 4 * (int m * (int m - 1))"
      by (simp only: CB two_choose_2)
    also have "\<dots> = ?N * (B * 2 + ?N - 2)"
      unfolding nm by (simp add: algebra_simps)
    finally have "?N * (8 * ?c) = ?N * (B * 2 + ?N - 2)" by (simp only: mult.left_commute)
    then show "B * 2 + ?N - 2 = 8 * ?c" using N by simp
  }
  {
    assume n0: "n mod 4 = 0"
    define m where "m = n div 2"
    have nm: "?N = 2 * int m" using n0 unfolding m_def by presburger
    have "int (n * divisible_count n + m) = int ((n choose 4) + (m choose 2))"
      unfolding m_def using divisible_count_0 [OF n n0] by simp
    then have e: "?N * ?c + int m = ?C + int (m choose 2)"
      by (simp only: of_nat_mult of_nat_add)
    have "8 * (?N * ?c) + 8 * int m = 8 * (?N * ?c + int m)" by simp
    also have "\<dots> = 2 * (?C * 4) + 4 * (2 * int (m choose 2))"
      unfolding e by simp
    also have "\<dots> = 2 * (?N * B) + 4 * (int m * (int m - 1))"
      by (simp only: CB two_choose_2)
    also have "\<dots> = ?N * (B * 2 + ?N - 6) + 8 * int m"
      unfolding nm by (simp add: algebra_simps)
    finally have "8 * (?N * ?c) = ?N * (B * 2 + ?N - 6)" by linarith
    then have "?N * (8 * ?c) = ?N * (B * 2 + ?N - 6)" by (simp only: mult.left_commute)
    then show "B * 2 + ?N - 6 = 8 * ?c" using N by simp
  }
qed

lemma formula_floor:
  "formula n =
     (if n < 5 then Some 0
      else do {
        c \<leftarrow> comb n 4;
        base \<leftarrow> floordiv (c * 4) n;
        r \<leftarrow> pymod n 4;
        if r = 1 \<or> r = 3 then floordiv base 4
        else if r = 2 then floordiv (base * 2 + n - 2) 8
        else if r = 0 then floordiv (base * 2 + n - 6) 8
        else Some 0
      })"
  by (simp add: formula_def formula_with_def)

lemma formula_steps:
  assumes "5 \<le> n"
  shows "comb (int n) 4 = Some (int (n choose 4))"
    and "floordiv (int (n choose 4) * 4) (int n) = Some (int ((n - 1) choose 3))"
    and "pymod (int n) 4 = Some (int (n mod 4))"
proof -
  have n: "0 < n" using assms by simp
  show "comb (int n) 4 = Some (int (n choose 4))"
    by (simp add: comb_def)
  show "floordiv (int (n choose 4) * 4) (int n) = Some (int ((n - 1) choose 3))"
    using n by (simp add: floordiv_def formula_terms(1) [OF n])
  show "pymod (int n) 4 = Some (int (n mod 4))"
    by (simp add: pymod_def zmod_int)
qed

text \<open>The closed formula returns the number of subsets with a sum divisible by \<open>n\<close>.\<close>

lemma formula_divisible_count:
  assumes "5 \<le> n"
  shows "formula (int n) = Some (int (divisible_count n))"
proof -
  have n: "0 < n" using assms by simp
  let ?B = "int ((n - 1) choose 3)"
  have r: "n mod 4 = 0 \<or> n mod 4 = 1 \<or> n mod 4 = 2 \<or> n mod 4 = 3" by presburger
  have unfold: "formula (int n) =
    (if n mod 4 = 1 \<or> n mod 4 = 3 then floordiv ?B 4
     else if n mod 4 = 2 then floordiv (?B * 2 + int n - 2) 8
     else if n mod 4 = 0 then floordiv (?B * 2 + int n - 6) 8
     else Some 0)"
    using assms by (simp add: formula_floor formula_steps [OF assms])
  from r show ?thesis
  proof (elim disjE)
    assume c: "n mod 4 = 0"
    with formula_terms(4) [OF n] show ?thesis
      unfolding unfold by (simp add: floordiv_def)
  next
    assume c: "n mod 4 = 1"
    then have "odd n" by presburger
    with formula_terms(2) [OF n] c show ?thesis
      unfolding unfold by (simp add: floordiv_def)
  next
    assume c: "n mod 4 = 2"
    with formula_terms(3) [OF n] show ?thesis
      unfolding unfold by (simp add: floordiv_def)
  next
    assume c: "n mod 4 = 3"
    then have "odd n" by presburger
    with formula_terms(2) [OF n] c show ?thesis
      unfolding unfold by (simp add: floordiv_def)
  qed
qed

lemma timed_result: "map_option fst (timed func clock args) = func args"
  by (cases "func args") (simp_all add: timed_def)

lemma card_quadruples_divisible:
  "card (quadruples_divisible (int n)) = divisible_count n"
  unfolding quadruples_divisible_def divisible_count_def by (rule card_quadruples)

lemma quadruples_divisible_small:
  assumes "n < 5"
  shows "quadruples_divisible n = {}"
proof -
  have False if q: "is_quadruple n (a, b, c, d)" and dvd: "n dvd a + b + c + d" for a b c d
  proof -
    from q assms have "n = 4" "a + b + c + d = 10" by simp_all
    with dvd show False by simp
  qed
  then show ?thesis by (auto simp: quadruples_divisible_def)
qed

lemma formula_card: "formula n = Some (int (card (quadruples_divisible n)))"
proof (cases "n < 5")
  case True
  then show ?thesis by (simp add: formula_floor quadruples_divisible_small)
next
  case False
  then have "5 \<le> nat n" "n = int (nat n)" by simp_all
  then show ?thesis
    by (metis formula_divisible_count card_quadruples_divisible)
qed

text \<open>
  C4. For every integer \<open>n\<close>, the result component of \<open>solve_with_formula(n)\<close> is a
  non-negative integer, the number of quadruples \<open>1 \<le> a < b < c < d \<le> n\<close> whose sum is
  divisible by \<open>n\<close>; it is 0 when \<open>n < 5\<close>.
\<close>

theorem solve_with_formula_correct:
  "\<exists>r. map_option fst (solve_with_formula clock n) = Some r \<and> 0 \<le> r \<and>
       r = int (card (quadruples_divisible n)) \<and> (n < 5 \<longrightarrow> r = 0)"
  by (simp add: solve_with_formula_def timed_result formula_card quadruples_divisible_small)

theorem solve_with_formula_correct_witness:
  "\<exists>r. map_option fst (solve_with_formula (0, 1) 3) = Some r \<and> 0 \<le> r \<and>
       r = int (card (quadruples_divisible 3)) \<and> r = 0"
  using solve_with_formula_correct [of "(0, 1)" 3] by auto

lemma formula_steps_int:
  assumes "5 \<le> n"
  shows "comb n 4 = Some (int (nat n choose 4))"
    and "floordiv (int (nat n choose 4) * 4) n = Some (int ((nat n - 1) choose 3))"
  using formula_steps(1,2) [of "nat n"] assms by simp_all

text \<open>
  C6. For \<open>n \<ge> 5\<close> every division that \<open>solve_with_formula\<close> performs has remainder zero:
  run with the division that fails on a nonzero remainder in place of \<open>//\<close>, the function
  returns the same result \<open>r\<close>, and \<open>r\<close> is the value of the closed form over the rationals.
  The dividends are: \<open>comb(n, 4) * 4\<close>, which \<open>n\<close> divides; with \<open>base\<close> the quotient, \<open>base\<close>,
  which 4 divides when \<open>n mod 4\<close> is 1 or 3; \<open>base * 2 + n - 2\<close>, which 8 divides when
  \<open>n mod 4 = 2\<close>; and \<open>base * 2 + n - 6\<close>, which 8 divides when \<open>n mod 4 = 0\<close>.
\<close>

theorem formula_divisions_exact:
  "5 \<le> n \<Longrightarrow>
     \<exists>c base r. comb n 4 = Some c \<and> floordiv (c * 4) n = Some base \<and>
       map_option fst (solve_with_formula clock n) = Some r \<and>
       map_option fst (timed (formula_with exact_div) clock n) = Some r \<and>
       real_of_int r = formula_rational n \<and>
       n dvd c * 4 \<and> real_of_int base = real_of_int (c * 4) / real_of_int n \<and>
       (n mod 4 = 1 \<or> n mod 4 = 3 \<longrightarrow>
          4 dvd base \<and> r = base div 4 \<and> real_of_int (base div 4) = real_of_int base / 4) \<and>
       (n mod 4 = 2 \<longrightarrow>
          8 dvd base * 2 + n - 2 \<and> r = (base * 2 + n - 2) div 8 \<and>
          real_of_int ((base * 2 + n - 2) div 8) = real_of_int (base * 2 + n - 2) / 8) \<and>
       (n mod 4 = 0 \<longrightarrow>
          8 dvd base * 2 + n - 6 \<and> r = (base * 2 + n - 6) div 8 \<and>
          real_of_int ((base * 2 + n - 6) div 8) = real_of_int (base * 2 + n - 6) / 8)"
proof -
  assume n5: "5 \<le> n"
  define m where "m = nat n"
  have m: "0 < m" "n = int m" "5 \<le> m" using n5 by (simp_all add: m_def)
  define c where "c = int (m choose 4)"
  define base where "base = int ((m - 1) choose 3)"
  define k where "k = int (divisible_count m)"
  have steps: "comb n 4 = Some c" "floordiv (c * 4) n = Some base"
    using formula_steps_int [OF n5] by (simp_all add: c_def base_def m_def)
  have cb: "c * 4 = n * base"
    using formula_terms(1) [OF m(1)] by (simp add: c_def base_def m(2))
  then have d0: "n dvd c * 4" by simp
  have "odd m \<longleftrightarrow> n mod 4 = 1 \<or> n mod 4 = 3"
    unfolding m(2) by presburger
  then have b1: "n mod 4 = 1 \<or> n mod 4 = 3 \<Longrightarrow> base = 4 * k"
    using formula_terms(2) [OF m(1)] by (simp add: base_def k_def)
  have "m mod 4 = 2 \<longleftrightarrow> n mod 4 = 2" "m mod 4 = 0 \<longleftrightarrow> n mod 4 = 0"
    unfolding m(2) by presburger+
  then have b2: "n mod 4 = 2 \<Longrightarrow> base * 2 + n - 2 = 8 * k"
    and b0: "n mod 4 = 0 \<Longrightarrow> base * 2 + n - 6 = 8 * k"
    using formula_terms(3,4) [OF m(1)] by (simp_all add: base_def k_def m(2))
  have r0: "real_of_int base = real_of_int (c * 4) / real_of_int n"
    using m by (simp add: cb)
  have cases: "(n mod 4 = 1 \<or> n mod 4 = 3) \<or> n mod 4 = 2 \<or> n mod 4 = 0"
    by presburger
  have "formula n = Some k"
    using formula_divisible_count [OF m(3)] by (simp add: k_def flip: m(2))
  then have floor: "map_option fst (solve_with_formula clock n) = Some k"
    by (simp add: solve_with_formula_def timed_result)
  have e0: "exact_div (c * 4) n = Some base"
    using m(1) by (simp add: exact_div_def cb m(2))
  have pm: "pymod n 4 = Some (n mod 4)"
    by (simp add: pymod_def)
  have "formula_with exact_div n = Some k"
  proof -
    from cases consider (odd) "n mod 4 = 1 \<or> n mod 4 = 3" | (two) "n mod 4 = 2"
      | (zero) "n mod 4 = 0"
      by blast
    then show ?thesis
    proof cases
      case odd
      have "exact_div base 4 = Some k" by (simp add: exact_div_def b1 [OF odd])
      with odd n5 show ?thesis by (simp add: formula_with_def steps(1) e0 pm)
    next
      case two
      have "exact_div (base * 2 + n - 2) 8 = Some k" by (simp add: exact_div_def b2 [OF two])
      with two n5 show ?thesis by (simp add: formula_with_def steps(1) e0 pm)
    next
      case zero
      have "exact_div (base * 2 + n - 6) 8 = Some k" by (simp add: exact_div_def b0 [OF zero])
      with zero n5 show ?thesis by (simp add: formula_with_def steps(1) e0 pm)
    qed
  qed
  then have exact: "map_option fst (timed (formula_with exact_div) clock n) = Some k"
    by (simp add: timed_result)
  have rb: "real (nat n choose 4) * 4 / real_of_int n = real_of_int base"
    unfolding r0 by (simp add: c_def m_def)
  have rational: "real_of_int k = formula_rational n"
  proof -
    from cases consider (odd) "n mod 4 = 1 \<or> n mod 4 = 3" | (two) "n mod 4 = 2"
      | (zero) "n mod 4 = 0"
      by blast
    then show ?thesis
    proof cases
      case odd
      have "real_of_int base = 4 * real_of_int k" unfolding b1 [OF odd] by simp
      with odd n5 show ?thesis by (simp add: formula_rational_def rb)
    next
      case two
      have "real_of_int (base * 2 + n - 2) = real_of_int (8 * k)" by (simp only: b2 [OF two])
      then have "2 * real_of_int base + real_of_int n - 2 = 8 * real_of_int k" by simp
      with two n5 show ?thesis by (simp add: formula_rational_def rb)
    next
      case zero
      have "real_of_int (base * 2 + n - 6) = real_of_int (8 * k)" by (simp only: b0 [OF zero])
      then have "2 * real_of_int base + real_of_int n - 6 = 8 * real_of_int k" by simp
      with zero n5 show ?thesis by (simp add: formula_rational_def rb)
    qed
  qed
  have "comb n 4 = Some c \<and> floordiv (c * 4) n = Some base \<and>
       map_option fst (solve_with_formula clock n) = Some k \<and>
       map_option fst (timed (formula_with exact_div) clock n) = Some k \<and>
       real_of_int k = formula_rational n \<and>
       n dvd c * 4 \<and> real_of_int base = real_of_int (c * 4) / real_of_int n \<and>
       (n mod 4 = 1 \<or> n mod 4 = 3 \<longrightarrow>
          4 dvd base \<and> k = base div 4 \<and> real_of_int (base div 4) = real_of_int base / 4) \<and>
       (n mod 4 = 2 \<longrightarrow>
          8 dvd base * 2 + n - 2 \<and> k = (base * 2 + n - 2) div 8 \<and>
          real_of_int ((base * 2 + n - 2) div 8) = real_of_int (base * 2 + n - 2) / 8) \<and>
       (n mod 4 = 0 \<longrightarrow>
          8 dvd base * 2 + n - 6 \<and> k = (base * 2 + n - 6) div 8 \<and>
          real_of_int ((base * 2 + n - 6) div 8) = real_of_int (base * 2 + n - 6) / 8)"
  proof (intro conjI impI)
    show "comb n 4 = Some c" "floordiv (c * 4) n = Some base"
      "map_option fst (solve_with_formula clock n) = Some k"
      "map_option fst (timed (formula_with exact_div) clock n) = Some k"
      "real_of_int k = formula_rational n"
      "n dvd c * 4" "real_of_int base = real_of_int (c * 4) / real_of_int n"
      by (fact steps floor exact rational d0 r0)+
  next
    assume "n mod 4 = 1 \<or> n mod 4 = 3"
    then have e: "base = 4 * k" by (rule b1)
    show "4 dvd base" "k = base div 4" "real_of_int (base div 4) = real_of_int base / 4"
      unfolding e by simp_all
  next
    assume "n mod 4 = 2"
    then have e: "base * 2 + n - 2 = 8 * k" by (rule b2)
    show "8 dvd base * 2 + n - 2" "k = (base * 2 + n - 2) div 8"
      "real_of_int ((base * 2 + n - 2) div 8) = real_of_int (base * 2 + n - 2) / 8"
      unfolding e by simp_all
  next
    assume "n mod 4 = 0"
    then have e: "base * 2 + n - 6 = 8 * k" by (rule b0)
    show "8 dvd base * 2 + n - 6" "k = (base * 2 + n - 6) div 8"
      "real_of_int ((base * 2 + n - 6) div 8) = real_of_int (base * 2 + n - 6) / 8"
      unfolding e by simp_all
  qed
  then show ?thesis by blast
qed

theorem formula_divisions_exact_witness:
  "(5::int) \<le> 6 \<and>
   (\<exists>c base r. comb 6 4 = Some c \<and> floordiv (c * 4) 6 = Some base \<and>
      map_option fst (solve_with_formula (0, 1) 6) = Some r \<and>
      map_option fst (timed (formula_with exact_div) (0, 1) 6) = Some r \<and>
      real_of_int r = formula_rational 6 \<and>
      6 dvd c * 4 \<and> real_of_int base = real_of_int (c * 4) / real_of_int 6 \<and>
      8 dvd base * 2 + 6 - 2 \<and> r = (base * 2 + 6 - 2) div 8 \<and>
      real_of_int ((base * 2 + 6 - 2) div 8) = real_of_int (base * 2 + 6 - 2) / 8)"
proof -
  have "(6::int) mod 4 = 2" by simp
  with formula_divisions_exact [of 6 "(0, 1)"] show ?thesis by auto
qed

section \<open>The three solvers agree\<close>

lemma finite_quadruples_with_sum [simp]: "finite (quadruples_with_sum N M)"
proof (rule finite_subset)
  show "quadruples_with_sum N M \<subseteq> {1..M} \<times> {1..M} \<times> {1..M} \<times> {1..M}"
    by (auto simp: quadruples_with_sum_def)
qed simp

text \<open>A sum of a quadruple below \<open>n\<close> that \<open>n\<close> divides is \<open>n\<close>, \<open>2 * n\<close> or \<open>3 * n\<close>.\<close>

lemma divisible_sum_cases:
  fixes n s :: int
  assumes "0 < n" "n dvd s" "10 \<le> s" "s \<le> 4 * n - 6"
  shows "s = n * 1 \<or> s = n * 2 \<or> s = n * 3"
proof -
  obtain k where k: "s = n * k" using assms(2) by (elim dvdE)
  have pos: "0 < n * k" and less: "n * k < n * 4" using assms(3,4) unfolding k by linarith+
  have "0 < k" using pos assms(1) by (simp add: zero_less_mult_iff)
  moreover have "k < 4" using less assms(1) by (simp only: mult_less_cancel_left_pos)
  ultimately have "0 < k" "k < 4" by simp_all
  then have "k = 1 \<or> k = 2 \<or> k = 3" by linarith
  then show ?thesis unfolding k by auto
qed

lemma quadruple_sum_range:
  "is_quadruple M q \<Longrightarrow> 10 \<le> quad_sum q \<and> quad_sum q \<le> 4 * M - 6"
  by (cases q) simp

lemma quadruples_divisible_split:
  assumes "0 < n"
  shows "quadruples_divisible n =
    quadruples_with_sum (n * 1) n \<union> quadruples_with_sum (n * 2) n \<union> quadruples_with_sum (n * 3) n"
proof (intro equalityI subsetI)
  fix q assume "q \<in> quadruples_divisible n"
  then have q: "is_quadruple n q" "n dvd quad_sum q" by (simp_all add: quadruples_divisible_def)
  from quadruple_sum_range [OF q(1)] q(2) assms
  have "quad_sum q = n * 1 \<or> quad_sum q = n * 2 \<or> quad_sum q = n * 3"
    by (intro divisible_sum_cases) simp_all
  with q(1) show "q \<in> quadruples_with_sum (n * 1) n \<union> quadruples_with_sum (n * 2) n \<union>
      quadruples_with_sum (n * 3) n"
    unfolding quadruples_with_sum_def by blast
next
  fix q assume "q \<in> quadruples_with_sum (n * 1) n \<union> quadruples_with_sum (n * 2) n \<union>
      quadruples_with_sum (n * 3) n"
  then have "is_quadruple n q" "quad_sum q = n * 1 \<or> quad_sum q = n * 2 \<or> quad_sum q = n * 3"
    unfolding quadruples_with_sum_def by blast+
  then show "q \<in> quadruples_divisible n"
    unfolding quadruples_divisible_def by auto
qed

lemma quadruples_with_sum_disjoint:
  "N \<noteq> N' \<Longrightarrow> quadruples_with_sum N M \<inter> quadruples_with_sum N' M = {}"
  by (auto simp: quadruples_with_sum_def)

lemma card_quadruples_divisible_split:
  assumes "0 < n"
  shows "card (quadruples_divisible n) =
    card (quadruples_with_sum (n * 1) n) + card (quadruples_with_sum (n * 2) n) +
    card (quadruples_with_sum (n * 3) n)"
proof -
  have ne: "n * 1 \<noteq> n * 2" "n * 1 \<noteq> n * 3" "n * 2 \<noteq> n * 3" using assms by simp_all
  have "(quadruples_with_sum (n * 1) n \<union> quadruples_with_sum (n * 2) n) \<inter>
      quadruples_with_sum (n * 3) n = {}"
    using quadruples_with_sum_disjoint [OF ne(2)] quadruples_with_sum_disjoint [OF ne(3)]
    by blast
  then have "card (quadruples_divisible n) =
      card (quadruples_with_sum (n * 1) n \<union> quadruples_with_sum (n * 2) n) +
      card (quadruples_with_sum (n * 3) n)"
    unfolding quadruples_divisible_split [OF assms] by (intro card_Un_disjoint) simp_all
  also have "card (quadruples_with_sum (n * 1) n \<union> quadruples_with_sum (n * 2) n) =
      card (quadruples_with_sum (n * 1) n) + card (quadruples_with_sum (n * 2) n)"
    using quadruples_with_sum_disjoint [OF ne(1)] by (intro card_Un_disjoint) simp_all
  finally show ?thesis .
qed

lemma sum_over_3:
  assumes "f 1 = Some a" "f 2 = Some b" "f 3 = Some c"
  shows "sum_over [1, 2, 3] f = Some (a + b + c)"
  using assms by (simp add: sum_over_def)

lemma dp_sum_card:
  "dp_sum (n, sp, pp, pd) =
     Some (int (card (quadruples_with_sum (n * 1) n)) + int (card (quadruples_with_sum (n * 2) n)) +
       int (card (quadruples_with_sum (n * 3) n)))"
  unfolding dp_sum_def prod.case by (rule sum_over_3) (rule count_quadruples_card)+

lemma pair_sum_sum_card:
  "pair_sum_sum (n, sp, pp, pd) =
     Some (int (card (quadruples_with_sum (n * 1) n)) + int (card (quadruples_with_sum (n * 2) n)) +
       int (card (quadruples_with_sum (n * 3) n)))"
  unfolding pair_sum_sum_def prod.case by (rule sum_over_3) (rule count_quadruples_pair_sum_all)+

text \<open>
  C1. For \<open>n \<ge> 5\<close> the result components of \<open>solve_with_formula(n)\<close>, \<open>solve_with_dp(n)\<close> and
  \<open>solve_with_pair_sum(n)\<close> are the same number \<open>r\<close>, which is the sum over the multipliers
  \<open>k = 1, 2, 3\<close> of \<open>count_quadruples(n * k, n)\<close> and also of
  \<open>count_quadruples_pair_sum(n * k, n)\<close>.
\<close>

theorem three_way_agreement:
  "5 \<le> n \<Longrightarrow>
     \<exists>r c1 c2 c3 p1 p2 p3.
       map_option fst (solve_with_formula clock1 n) = Some r \<and>
       map_option fst (solve_with_dp clock2 n sp pp pd) = Some r \<and>
       map_option fst (solve_with_pair_sum clock3 n sp pp pd) = Some r \<and>
       count_quadruples (n * 1) n sp pp (mult_desc pd 1) = Some c1 \<and>
       count_quadruples (n * 2) n sp pp (mult_desc pd 2) = Some c2 \<and>
       count_quadruples (n * 3) n sp pp (mult_desc pd 3) = Some c3 \<and>
       r = c1 + c2 + c3 \<and>
       count_quadruples_pair_sum (n * 1) n sp pp (mult_desc pd 1) = Some p1 \<and>
       count_quadruples_pair_sum (n * 2) n sp pp (mult_desc pd 2) = Some p2 \<and>
       count_quadruples_pair_sum (n * 3) n sp pp (mult_desc pd 3) = Some p3 \<and>
       r = p1 + p2 + p3"
proof -
  assume "5 \<le> n"
  then have n: "0 < n" by simp
  let ?q = "\<lambda>k. int (card (quadruples_with_sum (n * k) n))"
  have f: "map_option fst (solve_with_formula clock1 n) = Some (?q 1 + ?q 2 + ?q 3)"
    by (simp add: solve_with_formula_def timed_result formula_card
        card_quadruples_divisible_split [OF n])
  have d: "map_option fst (solve_with_dp clock2 n sp pp pd) = Some (?q 1 + ?q 2 + ?q 3)"
    unfolding solve_with_dp_def timed_result by (rule dp_sum_card)
  have p: "map_option fst (solve_with_pair_sum clock3 n sp pp pd) = Some (?q 1 + ?q 2 + ?q 3)"
    unfolding solve_with_pair_sum_def timed_result by (rule pair_sum_sum_card)
  from f d p count_quadruples_card count_quadruples_pair_sum_all show ?thesis
    by blast
qed

theorem three_way_agreement_witness:
  "(5::int) \<le> 5 \<and>
   (\<exists>r c1 c2 c3 p1 p2 p3.
       map_option fst (solve_with_formula (0, 1) 5) = Some r \<and>
       map_option fst (solve_with_dp (0, 1) 5 False None None) = Some r \<and>
       map_option fst (solve_with_pair_sum (0, 1) 5 False None None) = Some r \<and>
       count_quadruples (5 * 1) 5 False None (mult_desc None 1) = Some c1 \<and>
       count_quadruples (5 * 2) 5 False None (mult_desc None 2) = Some c2 \<and>
       count_quadruples (5 * 3) 5 False None (mult_desc None 3) = Some c3 \<and>
       r = c1 + c2 + c3 \<and>
       count_quadruples_pair_sum (5 * 1) 5 False None (mult_desc None 1) = Some p1 \<and>
       count_quadruples_pair_sum (5 * 2) 5 False None (mult_desc None 2) = Some p2 \<and>
       count_quadruples_pair_sum (5 * 3) 5 False None (mult_desc None 3) = Some p3 \<and>
       r = p1 + p2 + p3)"
proof
  show "(5::int) \<le> 5" by simp
  show "\<exists>r c1 c2 c3 p1 p2 p3.
       map_option fst (solve_with_formula (0, 1) 5) = Some r \<and>
       map_option fst (solve_with_dp (0, 1) 5 False None None) = Some r \<and>
       map_option fst (solve_with_pair_sum (0, 1) 5 False None None) = Some r \<and>
       count_quadruples (5 * 1) 5 False None (mult_desc None 1) = Some c1 \<and>
       count_quadruples (5 * 2) 5 False None (mult_desc None 2) = Some c2 \<and>
       count_quadruples (5 * 3) 5 False None (mult_desc None 3) = Some c3 \<and>
       r = c1 + c2 + c3 \<and>
       count_quadruples_pair_sum (5 * 1) 5 False None (mult_desc None 1) = Some p1 \<and>
       count_quadruples_pair_sum (5 * 2) 5 False None (mult_desc None 2) = Some p2 \<and>
       count_quadruples_pair_sum (5 * 3) 5 False None (mult_desc None 3) = Some p3 \<and>
       r = p1 + p2 + p3"
    by (rule three_way_agreement) simp
qed

end
